theory Spec2Isabelle
  imports Complex_Main "HOL-Library.Word" "HOL-Library.Sublist" "HOL-Library.Log_Nat"
begin

section \<open>OSC 9;4 progress sequences: the embedding of \<open>src/oscProgress.ts\<close>\<close>

text \<open>
  A JavaScript string is a sequence of UTF-16 code units, and every string operation the
  source uses (\<open>indexOf\<close>, \<open>includes\<close>, \<open>slice\<close>, \<open>replaceAll\<close>, \<open>split\<close>, \<open>join\<close>,
  \<open>trim\<close>, \<open>length\<close>) works on code units. A string is therefore a list of 16-bit words;
  offsets are list positions.
\<close>

type_synonym jschar = "16 word"
type_synonym jsstring = "jschar list"

text \<open>ASCII literals, written as Isabelle strings and read as code units.\<close>

definition js :: "string \<Rightarrow> jsstring" where
  "js s = map of_char s"

subsection \<open>The wire constants\<close>

definition OSC_PROGRESS_PREFIX :: jsstring where
  "OSC_PROGRESS_PREFIX = [0x1b, 0x5d, 0x39, 0x3b, 0x34, 0x3b]"

definition OSC_PROGRESS_ST :: jsstring where
  "OSC_PROGRESS_ST = [0x1b, 0x5c]"

definition OSC_PROGRESS_BEL :: jsstring where
  "OSC_PROGRESS_BEL = [0x07]"

definition OSC_PROGRESS_C1_ST :: jsstring where
  "OSC_PROGRESS_C1_ST = [0x9c]"

subsection \<open>The string operations of the runtime\<close>

text \<open>
  \<open>text.indexOf(pat, position)\<close>: the smallest offset at or after \<open>position\<close> (clamped to
  the length of the text) at which \<open>pat\<close> occurs; \<open>None\<close> stands for \<open>-1\<close>.
\<close>

fun indexOf_aux :: "'a list \<Rightarrow> 'a list \<Rightarrow> nat \<Rightarrow> nat option" where
  "indexOf_aux pat [] k = (if pat = [] then Some k else None)"
| "indexOf_aux pat (x # xs) k =
     (if prefix pat (x # xs) then Some k else indexOf_aux pat xs (Suc k))"

definition indexOf :: "'a list \<Rightarrow> 'a list \<Rightarrow> nat \<Rightarrow> nat option" where
  "indexOf text pat position =
     (let from = min position (length text) in indexOf_aux pat (drop from text) from)"

definition includes_str :: "'a list \<Rightarrow> 'a list \<Rightarrow> bool" where
  "includes_str text pat \<longleftrightarrow> indexOf text pat 0 \<noteq> None"

text \<open>\<open>text.slice(a, b)\<close> and \<open>text.slice(a)\<close> for offsets \<open>0 \<le> a\<close>, \<open>0 \<le> b\<close>.\<close>

definition slice_str :: "'a list \<Rightarrow> nat \<Rightarrow> nat \<Rightarrow> 'a list" where
  "slice_str text a b = take (b - a) (drop a text)"

definition slice_from :: "'a list \<Rightarrow> nat \<Rightarrow> 'a list" where
  "slice_from text a = drop a text"

text \<open>
  \<open>text.replaceAll(pat, rep)\<close> with a string pattern: one pass from the left over the
  non-overlapping occurrences of \<open>pat\<close>; the replacement is not scanned again. The source
  passes non-empty patterns only (an empty pattern leaves the text as it is here).
\<close>

fun replaceAll :: "'a list \<Rightarrow> 'a list \<Rightarrow> 'a list \<Rightarrow> 'a list" where
  "replaceAll [] pat rep = []"
| "replaceAll (x # xs) pat rep =
     (if pat \<noteq> [] \<and> prefix pat (x # xs)
      then rep @ replaceAll (drop (length pat - 1) xs) pat rep
      else x # replaceAll xs pat rep)"

text \<open>\<open>text.split(sep)\<close> with a non-empty string separator, and \<open>parts.join(sep)\<close>.\<close>

fun split :: "'a list \<Rightarrow> 'a list \<Rightarrow> 'a list list" where
  "split [] sep = [[]]"
| "split (x # xs) sep =
     (if sep \<noteq> [] \<and> prefix sep (x # xs)
      then [] # split (drop (length sep - 1) xs) sep
      else (case split xs sep of [] \<Rightarrow> [[x]] | p # ps \<Rightarrow> (x # p) # ps))"

fun join :: "'a list list \<Rightarrow> 'a list \<Rightarrow> 'a list" where
  "join [] sep = []"
| "join [p] sep = p"
| "join (p # q # ps) sep = p @ sep @ join (q # ps) sep"

text \<open>
  \<open>text.trim()\<close> removes the code units of WhiteSpace and LineTerminator (ECMAScript
  12.2 and 12.3) from both ends.
\<close>

definition isWhiteSpace :: "jschar \<Rightarrow> bool" where
  "isWhiteSpace c \<longleftrightarrow>
     c \<in> {0x09, 0x0a, 0x0b, 0x0c, 0x0d, 0x20, 0xa0, 0x1680, 0x2028, 0x2029,
          0x202f, 0x205f, 0x3000, 0xfeff}
     \<or> (0x2000 \<le> c \<and> c \<le> 0x200a)"

definition trim :: "jsstring \<Rightarrow> jsstring" where
  "trim s = rev (dropWhile isWhiteSpace (rev (dropWhile isWhiteSpace s)))"

subsection \<open>\<open>sanitizeLabel\<close>\<close>

definition sanitizeLabel :: "jsstring \<Rightarrow> jsstring" where
  "sanitizeLabel label =
     (let withoutSt = replaceAll label OSC_PROGRESS_ST [];
          withoutEscape = join (split withoutSt [0x1b]) [];
          withoutTerminators =
            replaceAll (replaceAll withoutEscape OSC_PROGRESS_BEL []) OSC_PROGRESS_C1_ST []
      in trim (replaceAll withoutTerminators [0x5d] []))"

subsection \<open>Numbers\<close>

text \<open>
  A JavaScript number is an IEEE 754 double: NaN, one of the two infinities, or a finite
  value, which is a real of the form \<open>m * 2^e\<close>. The model has a single zero: the sign of
  a zero shows only when something is divided by it, which the source never does (it
  divides by \<open>target\<close>, which is at least 1000 or NaN), and \<open>+0\<close> and \<open>-0\<close> both
  render as \<open>0\<close>.
\<close>

datatype jsnum = NaN | PosInf | NegInf | Num real

text \<open>
  Rounding of a real to the nearest double, ties to the even significand (the rounding of
  every arithmetic operation): with \<open>e\<close> the binary exponent of the value, not below
  \<open>-1022\<close> (the subnormal range), the doubles near it are the multiples of \<open>2^(e - 52)\<close>;
  a result of magnitude \<open>2^1024\<close> or more overflows to an infinity.
\<close>

definition round_half_even :: "real \<Rightarrow> int" where
  "round_half_even y =
     (let n = \<lfloor>y\<rfloor>; r = y - of_int n
      in if r < 1 / 2 then n else if 1 / 2 < r then n + 1 else if even n then n else n + 1)"

text \<open>\<open>\<lfloor>log\<^sub>2 |x|\<rfloor>\<close> for \<open>x \<noteq> 0\<close>, computed from the bit length of an integer.\<close>

definition binary_exponent :: "real \<Rightarrow> int" where
  "binary_exponent x =
     (if 1 \<le> \<bar>x\<bar> then bitlen \<lfloor>\<bar>x\<bar>\<rfloor> - 1 else - bitlen (\<lceil>1 / \<bar>x\<bar>\<rceil> - 1))"

definition to_double :: "real \<Rightarrow> jsnum" where
  "to_double x =
     (if x = 0 then Num 0
      else let e = max (binary_exponent x) (- 1022);
               ulp = 2 powi (e - 52);
               y = of_int (round_half_even (x / ulp)) * ulp
           in if 2 powi 1024 \<le> \<bar>y\<bar> then (if 0 < x then PosInf else NegInf) else Num y)"

text \<open>The operators \<open>-\<close>, \<open>*\<close> and \<open>/\<close> on numbers.\<close>

fun number_sub :: "jsnum \<Rightarrow> jsnum \<Rightarrow> jsnum" where
  "number_sub NaN b = NaN"
| "number_sub a NaN = NaN"
| "number_sub PosInf PosInf = NaN"
| "number_sub NegInf NegInf = NaN"
| "number_sub PosInf b = PosInf"
| "number_sub NegInf b = NegInf"
| "number_sub a PosInf = NegInf"
| "number_sub a NegInf = PosInf"
| "number_sub (Num a) (Num b) = to_double (a - b)"

fun number_mul :: "jsnum \<Rightarrow> jsnum \<Rightarrow> jsnum" where
  "number_mul NaN b = NaN"
| "number_mul a NaN = NaN"
| "number_mul PosInf PosInf = PosInf"
| "number_mul PosInf NegInf = NegInf"
| "number_mul NegInf PosInf = NegInf"
| "number_mul NegInf NegInf = PosInf"
| "number_mul PosInf (Num b) = (if b = 0 then NaN else if 0 < b then PosInf else NegInf)"
| "number_mul NegInf (Num b) = (if b = 0 then NaN else if 0 < b then NegInf else PosInf)"
| "number_mul (Num a) PosInf = (if a = 0 then NaN else if 0 < a then PosInf else NegInf)"
| "number_mul (Num a) NegInf = (if a = 0 then NaN else if 0 < a then NegInf else PosInf)"
| "number_mul (Num a) (Num b) = to_double (a * b)"

fun number_div :: "jsnum \<Rightarrow> jsnum \<Rightarrow> jsnum" where
  "number_div NaN b = NaN"
| "number_div a NaN = NaN"
| "number_div PosInf PosInf = NaN"
| "number_div PosInf NegInf = NaN"
| "number_div NegInf PosInf = NaN"
| "number_div NegInf NegInf = NaN"
| "number_div PosInf (Num b) = (if 0 \<le> b then PosInf else NegInf)"
| "number_div NegInf (Num b) = (if 0 \<le> b then NegInf else PosInf)"
| "number_div (Num a) PosInf = Num 0"
| "number_div (Num a) NegInf = Num 0"
| "number_div (Num a) (Num b) =
     (if b = 0 then (if a = 0 then NaN else if 0 < a then PosInf else NegInf)
      else to_double (a / b))"

text \<open>\<open>Math.max\<close> and \<open>Math.min\<close> of two numbers: NaN if either is NaN.\<close>

fun Math_max_n :: "jsnum \<Rightarrow> jsnum \<Rightarrow> jsnum" where
  "Math_max_n NaN b = NaN"
| "Math_max_n a NaN = NaN"
| "Math_max_n PosInf b = PosInf"
| "Math_max_n a PosInf = PosInf"
| "Math_max_n NegInf b = b"
| "Math_max_n a NegInf = a"
| "Math_max_n (Num a) (Num b) = Num (max a b)"

fun Math_min_n :: "jsnum \<Rightarrow> jsnum \<Rightarrow> jsnum" where
  "Math_min_n NaN b = NaN"
| "Math_min_n a NaN = NaN"
| "Math_min_n NegInf b = NegInf"
| "Math_min_n a NegInf = NegInf"
| "Math_min_n PosInf b = b"
| "Math_min_n a PosInf = a"
| "Math_min_n (Num a) (Num b) = Num (min a b)"

text \<open>
  \<open>Math.round\<close> of a finite number is the integer nearest to it, halves going up; the
  result is always a double again. NaN and the infinities are returned as they are. A
  template literal renders a non-negative integer in decimal.
\<close>

definition Math_round :: "real \<Rightarrow> int" where
  "Math_round x = \<lfloor>x + 1 / 2\<rfloor>"

definition Math_round_n :: "jsnum \<Rightarrow> jsnum" where
  "Math_round_n p =
     (case p of NaN \<Rightarrow> NaN | PosInf \<Rightarrow> PosInf | NegInf \<Rightarrow> NegInf
      | Num x \<Rightarrow> Num (of_int (Math_round x)))"

fun decimal :: "nat \<Rightarrow> jsstring" where
  "decimal n = (if n < 10 then [of_nat (48 + n)]
                else decimal (n div 10) @ [of_nat (48 + n mod 10)])"

subsection \<open>\<open>supportsOscProgress\<close>\<close>

text \<open>
  \<open>NodeJS.ProcessEnv\<close> maps names to strings; an absent (or \<open>undefined\<close>) entry is
  \<open>None\<close>. An optional field or argument is an \<open>option\<close>, \<open>None\<close> for \<open>undefined\<close>.
\<close>

type_synonym ProcessEnv = "jsstring \<Rightarrow> jsstring option"

record OscProgressSupportOptions =
  force :: "bool option"
  disabled :: "bool option"
  disableEnvVar :: "jsstring option"
  forceEnvVar :: "jsstring option"

text \<open>
  What the function reads of the process it runs in: the defaults of its parameters
  (\<open>process.env\<close>, \<open>process.stdout.isTTY\<close>) and \<open>String.prototype.toLowerCase\<close>, the
  runtime's Unicode case mapping, whose table is no part of the repository and stays a
  parameter.
\<close>

record host =
  toLowerCase :: "jsstring \<Rightarrow> jsstring"
  process_env :: ProcessEnv
  stdout_isTTY :: bool

text \<open>Truthiness of an optional boolean and of an optional string.\<close>

definition truthy :: "bool option \<Rightarrow> bool" where
  "truthy b \<longleftrightarrow> b = Some True"

definition truthy_str :: "jsstring option \<Rightarrow> bool" where
  "truthy_str s \<longleftrightarrow> (case s of None \<Rightarrow> False | Some v \<Rightarrow> v \<noteq> [])"

text \<open>\<open>name && env[name] === "1"\<close> for an optional variable name.\<close>

definition env_flag :: "ProcessEnv \<Rightarrow> jsstring option \<Rightarrow> bool" where
  "env_flag env name \<longleftrightarrow>
     (case name of None \<Rightarrow> False | Some n \<Rightarrow> n \<noteq> [] \<and> env n = Some (js ''1''))"

definition supportsOscProgress ::
  "host \<Rightarrow> ProcessEnv option \<Rightarrow> bool option \<Rightarrow> 'a OscProgressSupportOptions_scheme \<Rightarrow> bool"
where
  "supportsOscProgress h env_arg isTty_arg options =
     (let env = (case env_arg of None \<Rightarrow> process_env h | Some e \<Rightarrow> e);
          isTty = (case isTty_arg of None \<Rightarrow> stdout_isTTY h | Some b \<Rightarrow> b)
      in if \<not> isTty then False
         else if truthy (disabled options) then False
         else if truthy (force options) then True
         else if env_flag env (disableEnvVar options) then False
         else if env_flag env (forceEnvVar options) then True
         else let termProgram =
                    toLowerCase h (case env (js ''TERM_PROGRAM'') of None \<Rightarrow> [] | Some v \<Rightarrow> v)
              in if includes_str termProgram (js ''ghostty'') then True
                 else if includes_str termProgram (js ''wezterm'') then True
                 else if truthy_str (env (js ''WT_SESSION'')) then True
                 else False)"

text \<open>
  Lower-casing of the letters A to Z, which is what \<open>toLowerCase\<close> does on ASCII text;
  an object literal as an environment. Both serve the evaluated examples.
\<close>

definition toLowerCase_ascii :: "jsstring \<Rightarrow> jsstring" where
  "toLowerCase_ascii s = map (\<lambda>c. if 0x41 \<le> c \<and> c \<le> 0x5a then c + 0x20 else c) s"

definition env_of :: "(jsstring \<times> jsstring) list \<Rightarrow> ProcessEnv" where
  "env_of kvs = map_of kvs"

definition node :: host where
  "node = \<lparr>toLowerCase = toLowerCase_ascii, process_env = env_of [], stdout_isTTY = False\<rparr>"

definition no_options :: OscProgressSupportOptions where
  "no_options = \<lparr>force = None, disabled = None, disableEnvVar = None, forceEnvVar = None\<rparr>"

subsection \<open>\<open>findOscProgressSequences\<close>\<close>

datatype SequenceTerminator = SeqSt | SeqBel | SeqC1st

record OscProgressSequence =
  seq_start :: nat
  seq_end :: nat
  raw :: jsstring
  seq_terminator :: SequenceTerminator

record candidate =
  endExclusive :: nat
  cand_terminator :: SequenceTerminator

text \<open>The candidates of one iteration, in the order the source pushes them.\<close>

definition candidates_at :: "jsstring \<Rightarrow> nat \<Rightarrow> candidate list" where
  "candidates_at text after =
     (case indexOf text OSC_PROGRESS_ST after of
        None \<Rightarrow> []
      | Some stStart \<Rightarrow>
          [\<lparr>endExclusive = stStart + length OSC_PROGRESS_ST, cand_terminator = SeqSt\<rparr>])
     @ (case indexOf text OSC_PROGRESS_BEL after of
        None \<Rightarrow> []
      | Some belStart \<Rightarrow>
          [\<lparr>endExclusive = belStart + length OSC_PROGRESS_BEL, cand_terminator = SeqBel\<rparr>])
     @ (case indexOf text OSC_PROGRESS_C1_ST after of
        None \<Rightarrow> []
      | Some c1Start \<Rightarrow>
          [\<lparr>endExclusive = c1Start + length OSC_PROGRESS_C1_ST, cand_terminator = SeqC1st\<rparr>])"

text \<open>
  The \<open>while\<close> loop, with \<open>searchFrom\<close> as its state; the sequences it pushes are
  returned in order. \<open>Array.prototype.sort\<close> is stable, as \<open>sort_key\<close> is.
\<close>

function findFrom :: "jsstring \<Rightarrow> nat \<Rightarrow> OscProgressSequence list" where
  "findFrom text searchFrom =
     (if searchFrom < length text then
        (case indexOf text OSC_PROGRESS_PREFIX searchFrom of
           None \<Rightarrow> []
         | Some start \<Rightarrow>
             let after = start + length OSC_PROGRESS_PREFIX;
                 candidates = candidates_at text after
             in if length candidates = 0 then findFrom text after
                else let best = hd (sort_key endExclusive candidates)
                     in \<lparr>seq_start = start, seq_end = endExclusive best,
                         raw = slice_str text start (endExclusive best),
                         seq_terminator = cand_terminator best\<rparr>
                        # findFrom text (endExclusive best))
      else [])"
  by pat_completeness auto

definition findOscProgressSequences :: "jsstring \<Rightarrow> OscProgressSequence list" where
  "findOscProgressSequences text = findFrom text 0"

subsection \<open>\<open>stripOscProgress\<close> and \<open>sanitizeOscProgress\<close>\<close>

text \<open>The \<open>ends\<close> of one iteration, and \<open>Math.min(...ends)\<close> on a non-empty array.\<close>

definition ends_at :: "jsstring \<Rightarrow> nat \<Rightarrow> nat list" where
  "ends_at current after =
     (case indexOf current OSC_PROGRESS_ST after of
        None \<Rightarrow> [] | Some stStart \<Rightarrow> [stStart + length OSC_PROGRESS_ST])
     @ (case indexOf current OSC_PROGRESS_BEL after of
        None \<Rightarrow> [] | Some belStart \<Rightarrow> [belStart + length OSC_PROGRESS_BEL])
     @ (case indexOf current OSC_PROGRESS_C1_ST after of
        None \<Rightarrow> [] | Some c1Start \<Rightarrow> [c1Start + length OSC_PROGRESS_C1_ST])"

function stripOscProgress :: "jsstring \<Rightarrow> jsstring" where
  "stripOscProgress current =
     (if includes_str current OSC_PROGRESS_PREFIX then
        (case indexOf current OSC_PROGRESS_PREFIX 0 of
           None \<Rightarrow> current
         | Some start \<Rightarrow>
             let after = start + length OSC_PROGRESS_PREFIX;
                 ends = ends_at current after;
                 cutEnd = (if length ends = 0 then length current else min_list ends)
             in stripOscProgress (slice_str current 0 start @ slice_from current cutEnd))
      else current)"
  by pat_completeness auto

definition sanitizeOscProgress :: "jsstring \<Rightarrow> bool \<Rightarrow> jsstring" where
  "sanitizeOscProgress text keepOsc = (if keepOsc then text else stripOscProgress text)"

subsection \<open>\<open>startOscProgress\<close>\<close>

datatype OscProgressTerminator = TermSt | TermBel

record OscProgressOptions = OscProgressSupportOptions +
  label :: "jsstring option"
  targetMs :: "jsnum option"
  env :: "ProcessEnv option"
  isTty :: "bool option"
  indeterminate :: "bool option"
  state :: "nat option"
  terminator :: "OscProgressTerminator option"

definition resolveTerminator :: "OscProgressTerminator option \<Rightarrow> jsstring" where
  "resolveTerminator t = (if t = Some TermBel then OSC_PROGRESS_BEL else OSC_PROGRESS_ST)"

text \<open>The default label, \<open>Working\<close> followed by U+2026.\<close>

definition default_label :: jsstring where
  "default_label = js ''Working'' @ [0x2026]"

text \<open>
  The string \<open>send\<close> hands to the sink for a state and a finite percent (\<open>None\<close> for
  \<open>null\<close>), given the sanitized label and the terminator of the session.
\<close>

definition clampRound :: "real \<Rightarrow> int" where
  "clampRound percent = max 0 (min 100 (Math_round percent))"

definition osc_frame :: "jsstring \<Rightarrow> jsstring \<Rightarrow> nat \<Rightarrow> real option \<Rightarrow> jsstring" where
  "osc_frame cleanLabel end_chars st percent =
     (case percent of
        None \<Rightarrow> OSC_PROGRESS_PREFIX @ decimal st @ js '';;'' @ cleanLabel @ end_chars
      | Some p \<Rightarrow>
          let clamped = clampRound p
          in OSC_PROGRESS_PREFIX @ decimal st @ js '';'' @ decimal (nat clamped) @ js '';''
             @ cleanLabel @ end_chars)"

text \<open>
  The same for any number as percent, NaN and the infinities included, with the operations
  on numbers written out. The clamped value is NaN or an integer from 0 to 100 (an
  infinity is clamped to 100 or 0), and the template literal renders it as \<open>NaN\<close> or in
  decimal. On a finite percent this is \<open>osc_frame\<close> (\<open>send_text_finite\<close>).
\<close>

definition send_text :: "jsstring \<Rightarrow> jsstring \<Rightarrow> nat \<Rightarrow> jsnum option \<Rightarrow> jsstring" where
  "send_text label0 end0 st percent =
     (case percent of
        None \<Rightarrow> OSC_PROGRESS_PREFIX @ decimal st @ js '';;'' @ label0 @ end0
      | Some p \<Rightarrow>
          let clamped = Math_max_n (Num 0) (Math_min_n (Num 100) (Math_round_n p))
          in OSC_PROGRESS_PREFIX @ decimal st @ js '';''
             @ (case clamped of NaN \<Rightarrow> js ''NaN'' | PosInf \<Rightarrow> js ''Infinity''
                | NegInf \<Rightarrow> js ''-Infinity'' | Num c \<Rightarrow> decimal (nat \<lfloor>c\<rfloor>))
             @ js '';'' @ label0 @ end0)"

text \<open>
  A started session: what the closures of \<open>startOscProgress\<close> capture, which of the three
  stop functions was returned, whether the interval timer is registered, and the strings
  handed to the sink so far, in order. The sink is the caller's; the model records its
  calls.
\<close>

datatype stop_function = StopNoop | StopIndeterminate | StopDeterminate

record session =
  stopFn :: stop_function
  cleanLabel :: jsstring
  end_chars :: jsstring
  run_state :: nat
  target :: jsnum
  startedAt :: int
  timer_live :: bool
  stopped :: bool
  writes :: "jsstring list"

definition send :: "nat \<Rightarrow> jsnum option \<Rightarrow> session \<Rightarrow> session" where
  "send st percent s =
     s\<lparr>writes := writes s @ [send_text (cleanLabel s) (end_chars s) st percent]\<rparr>"

text \<open>
  \<open>startOscProgress(options)\<close>, called when \<open>Date.now()\<close> is \<open>now\<close>. A time value is an
  integer number of milliseconds, of magnitude at most \<open>8.64 * 10^15\<close> and so a double.
\<close>

definition startOscProgress :: "host \<Rightarrow> int \<Rightarrow> OscProgressOptions \<Rightarrow> session" where
  "startOscProgress h now options =
     (let label0 = (case label options of None \<Rightarrow> default_label | Some l \<Rightarrow> l);
          targetMs0 = (case targetMs options of None \<Rightarrow> Num (10 * 60000) | Some t \<Rightarrow> t);
          indeterminate0 = (case indeterminate options of None \<Rightarrow> False | Some b \<Rightarrow> b);
          state0 = (case state options of None \<Rightarrow> 1 | Some s \<Rightarrow> s);
          s0 = \<lparr>stopFn = StopNoop, cleanLabel = sanitizeLabel label0,
                end_chars = resolveTerminator (terminator options), run_state = state0,
                target = Math_max_n targetMs0 (Num 1000), startedAt = now, timer_live = False,
                stopped = False, writes = []\<rparr>
      in if \<not> supportsOscProgress h (env options) (isTty options) options then s0
         else if indeterminate0 then (send 3 None s0)\<lparr>stopFn := StopIndeterminate\<rparr>
         else (send state0 (Some (Num 0)) s0)\<lparr>stopFn := StopDeterminate, timer_live := True\<rparr>)"

text \<open>
  The interval callback, run when \<open>Date.now()\<close> is \<open>now\<close>; a timer that was never
  registered or has been cleared does not fire.
\<close>

definition tick :: "int \<Rightarrow> session \<Rightarrow> session" where
  "tick now s =
     (if timer_live s then
        let elapsed = number_sub (Num (of_int now)) (Num (of_int (startedAt s)));
            percent = Math_min_n (Num 99) (number_mul (number_div elapsed (target s)) (Num 100))
        in send (run_state s) (Some percent) s
      else s)"

text \<open>A call of the returned stop function.\<close>

definition stop :: "session \<Rightarrow> session" where
  "stop s =
     (case stopFn s of
        StopNoop \<Rightarrow> s
      | StopIndeterminate \<Rightarrow> send 0 (Some (Num 0)) s
      | StopDeterminate \<Rightarrow>
          if stopped s then s
          else send 0 (Some (Num 0)) (s\<lparr>stopped := True, timer_live := False\<rparr>))"

text \<open>What happens to a session after its start: timer callbacks and calls of stop.\<close>

datatype event = Tick int | Stop

fun run :: "event list \<Rightarrow> session \<Rightarrow> session" where
  "run [] s = s"
| "run (Tick now # es) s = run es (tick now s)"
| "run (Stop # es) s = run es (stop s)"

subsection \<open>The stateful controller\<close>







subsection \<open>Vocabulary of the statements\<close>

text \<open>An occurrence of a pattern at an offset; the specification of \<open>indexOf\<close>.\<close>

definition occurs_at :: "'a list \<Rightarrow> 'a list \<Rightarrow> nat \<Rightarrow> bool" where
  "occurs_at pat text i \<longleftrightarrow> i \<le> length text \<and> prefix pat (drop i text)"

text \<open>The code units of each terminator the scanner accepts.\<close>

definition term_chars :: "SequenceTerminator \<Rightarrow> jsstring" where
  "term_chars k =
     (case k of SeqSt \<Rightarrow> OSC_PROGRESS_ST | SeqBel \<Rightarrow> OSC_PROGRESS_BEL
      | SeqC1st \<Rightarrow> OSC_PROGRESS_C1_ST)"

text \<open>
  \<open>first_end t after e k\<close>: a terminator of kind \<open>k\<close> that starts at or after \<open>after\<close>
  ends at offset \<open>e\<close>, and no terminator of any kind that starts at or after \<open>after\<close>
  ends before \<open>e\<close>.
\<close>

definition first_end :: "jsstring \<Rightarrow> nat \<Rightarrow> nat \<Rightarrow> SequenceTerminator \<Rightarrow> bool" where
  "first_end t after e k \<longleftrightarrow>
     length (term_chars k) \<le> e \<and> after \<le> e - length (term_chars k)
     \<and> occurs_at (term_chars k) t (e - length (term_chars k))
     \<and> (\<forall>k' j. after \<le> j \<and> occurs_at (term_chars k') t j \<longrightarrow> e \<le> j + length (term_chars k'))"

text \<open>
  Plain text holds no ESC; the body of a well-terminated frame (what stands between the
  prefix and the terminator) holds none of ESC, BEL and C1 ST, as the sanitizer ensures
  for every frame the emitter writes.
\<close>

definition plain :: "jsstring \<Rightarrow> bool" where
  "plain p \<longleftrightarrow> 0x1b \<notin> set p"

definition frame_body :: "jsstring \<Rightarrow> bool" where
  "frame_body b \<longleftrightarrow> 0x1b \<notin> set b \<and> 0x07 \<notin> set b \<and> 0x9c \<notin> set b"

text \<open>What \<open>send\<close> puts between the prefix and the terminator.\<close>

definition frame_payload :: "jsstring \<Rightarrow> nat \<Rightarrow> real option \<Rightarrow> jsstring" where
  "frame_payload lbl st percent =
     decimal st
     @ (case percent of None \<Rightarrow> js '';;''
        | Some p \<Rightarrow> js '';'' @ decimal (nat (clampRound p)) @ js '';'')
     @ lbl"

text \<open>The kind of terminator the scanner sees for the terminator the emitter was given.\<close>

definition emitted_kind :: "OscProgressTerminator option \<Rightarrow> SequenceTerminator" where
  "emitted_kind t = (if t = Some TermBel then SeqBel else SeqSt)"

text \<open>
  A text of frames interleaved with plain text: each segment is the plain text before a
  frame, the body of the frame and its terminator; \<open>tail\<close> is the plain text after the
  last frame.
\<close>

type_synonym segment = "jsstring \<times> jsstring \<times> SequenceTerminator"

fun interleave :: "segment list \<Rightarrow> jsstring \<Rightarrow> jsstring" where
  "interleave [] tail = tail"
| "interleave ((p, b, k) # segs) tail =
     p @ (OSC_PROGRESS_PREFIX @ b @ term_chars k) @ interleave segs tail"

text \<open>
  The fields of a written frame, read back along the grammar
  \<open>PREFIX state ";" percent ";" label TERMINATOR\<close>.
\<close>

definition state_field :: "jsstring \<Rightarrow> jsstring" where
  "state_field w = takeWhile (\<lambda>c. c \<noteq> 0x3b) (drop 6 w)"

definition percent_field :: "jsstring \<Rightarrow> jsstring" where
  "percent_field w =
     takeWhile (\<lambda>c. c \<noteq> 0x3b) (drop 1 (dropWhile (\<lambda>c. c \<noteq> 0x3b) (drop 6 w)))"

text \<open>
  The percent of the ramp at clock \<open>now\<close>, for a session started at clock \<open>t0\<close> with
  target \<open>tgt\<close>: \<open>min(99, elapsed / target * 100)\<close>, each operation on doubles.
\<close>

definition ramp_percent :: "jsnum \<Rightarrow> int \<Rightarrow> int \<Rightarrow> jsnum" where
  "ramp_percent tgt t0 now =
     Math_min_n (Num 99)
       (number_mul (number_div (number_sub (Num (of_int now)) (Num (of_int t0))) tgt) (Num 100))"

text \<open>The clocks of the timer callbacks that come before the first call of stop.\<close>

fun live_ticks :: "event list \<Rightarrow> int list" where
  "live_ticks [] = []"
| "live_ticks (Tick now # evs) = now # live_ticks evs"
| "live_ticks (Stop # evs) = []"

text \<open>What every determinate session keeps from its start on.\<close>

definition determinate_session ::
  "jsstring \<Rightarrow> jsstring \<Rightarrow> nat \<Rightarrow> jsnum \<Rightarrow> int \<Rightarrow> session \<Rightarrow> bool" where
  "determinate_session l e st tgt t0 s \<longleftrightarrow>
     stopFn s = StopDeterminate \<and> cleanLabel s = l \<and> end_chars s = e \<and> run_state s = st
     \<and> target s = tgt \<and> startedAt s = t0 \<and> timer_live s = (\<not> stopped s)"

subsection \<open>Examples\<close>

text \<open>Texts with frames in them.\<close>

definition bel_then_st :: jsstring where
  "bel_then_st = js ''a'' @ OSC_PROGRESS_PREFIX @ js ''1;50;X'' @ OSC_PROGRESS_BEL
     @ OSC_PROGRESS_ST @ js ''b''"

definition unterminated_text :: jsstring where
  "unterminated_text = js ''a'' @ OSC_PROGRESS_PREFIX @ js ''1;50;Xb''"

definition mixed_segments :: "segment list" where
  "mixed_segments =
     [(js ''pre'', js ''3;;Waiting'', SeqSt), (js ''mid'', js ''1;5;Downloading'', SeqBel)]"

definition spliced_text :: jsstring where
  "spliced_text = [0x1b, 0x5d, 0x39, 0x3b] @ OSC_PROGRESS_PREFIX @ OSC_PROGRESS_BEL @ js ''4;x''"

definition framed_pre :: jsstring where
  "framed_pre = js ''a'' @ OSC_PROGRESS_PREFIX @ js ''3;;W'' @ OSC_PROGRESS_ST @ js ''b''"

text \<open>Options on a terminal the allow-list knows, determinate and indeterminate.\<close>

definition ghostty_options :: OscProgressOptions where
  "ghostty_options =
     \<lparr>force = None, disabled = None, disableEnvVar = None, forceEnvVar = None,
      label = None, targetMs = None,
      env = Some (env_of [(js ''TERM_PROGRAM'', js ''ghostty'')]), isTty = Some True,
      indeterminate = None, state = None, terminator = None\<rparr>"

definition fetching_options :: OscProgressOptions where
  "fetching_options =
     ghostty_options\<lparr>label := Some (js ''Fetching''), targetMs := Some (Num 2000)\<rparr>"

definition nan_target_options :: OscProgressOptions where
  "nan_target_options = ghostty_options\<lparr>targetMs := Some NaN\<rparr>"

definition waiting_options :: OscProgressOptions where
  "waiting_options = ghostty_options\<lparr>label := Some (js ''Waiting''), indeterminate := Some True\<rparr>"

section \<open>Facts\<close>

subsection \<open>\<open>indexOf\<close> and occurrences\<close>

declare decimal.simps [simp del]

lemma indexOf_aux_Some:
  "indexOf_aux pat xs k = Some m \<longleftrightarrow>
     (\<exists>j. m = k + j \<and> j \<le> length xs \<and> prefix pat (drop j xs)
          \<and> (\<forall>i<j. \<not> prefix pat (drop i xs)))"
proof (induction xs arbitrary: k)
  case Nil
  then show ?case by auto
next
  case (Cons x xs)
  show ?case
  proof (cases "prefix pat (x # xs)")
    case True
    have "(\<exists>j. m = k + j \<and> j \<le> length (x # xs) \<and> prefix pat (drop j (x # xs))
            \<and> (\<forall>i<j. \<not> prefix pat (drop i (x # xs)))) \<longleftrightarrow> m = k"
    proof
      assume "\<exists>j. m = k + j \<and> j \<le> length (x # xs) \<and> prefix pat (drop j (x # xs))
            \<and> (\<forall>i<j. \<not> prefix pat (drop i (x # xs)))"
      then obtain j where j: "m = k + j" "\<forall>i<j. \<not> prefix pat (drop i (x # xs))" by blast
      have "j = 0"
      proof (rule ccontr)
        assume "j \<noteq> 0"
        then have "0 < j" by simp
        with j(2) have "\<not> prefix pat (drop 0 (x # xs))" by blast
        with True show False by simp
      qed
      with j(1) show "m = k" by simp
    next
      assume "m = k"
      with True show "\<exists>j. m = k + j \<and> j \<le> length (x # xs) \<and> prefix pat (drop j (x # xs))
            \<and> (\<forall>i<j. \<not> prefix pat (drop i (x # xs)))"
        by (intro exI[of _ 0]) simp
    qed
    with True show ?thesis by auto
  next
    case False
    have "(\<exists>j. m = k + j \<and> j \<le> length (x # xs) \<and> prefix pat (drop j (x # xs))
            \<and> (\<forall>i<j. \<not> prefix pat (drop i (x # xs))))
       \<longleftrightarrow> (\<exists>j. m = Suc k + j \<and> j \<le> length xs \<and> prefix pat (drop j xs)
            \<and> (\<forall>i<j. \<not> prefix pat (drop i xs)))" (is "?L \<longleftrightarrow> ?R")
    proof
      assume ?L
      then obtain j where j: "m = k + j" "j \<le> length (x # xs)" "prefix pat (drop j (x # xs))"
        "\<forall>i<j. \<not> prefix pat (drop i (x # xs))" by blast
      from False j(3) have "j \<noteq> 0" by (cases j) auto
      then obtain j' where j': "j = Suc j'" by (cases j) auto
      have "\<forall>i<j'. \<not> prefix pat (drop i xs)"
      proof (intro allI impI)
        fix i assume "i < j'"
        then have "Suc i < j" using j' by simp
        with j(4) have "\<not> prefix pat (drop (Suc i) (x # xs))" by blast
        then show "\<not> prefix pat (drop i xs)" by simp
      qed
      with j j' show ?R by (intro exI[of _ j']) simp
    next
      assume ?R
      then obtain j where j: "m = Suc k + j" "j \<le> length xs" "prefix pat (drop j xs)"
        "\<forall>i<j. \<not> prefix pat (drop i xs)" by blast
      have "\<forall>i<Suc j. \<not> prefix pat (drop i (x # xs))"
      proof (intro allI impI)
        fix i assume i: "i < Suc j"
        show "\<not> prefix pat (drop i (x # xs))"
        proof (cases i)
          case 0
          with False show ?thesis by simp
        next
          case (Suc i')
          with i j(4) show ?thesis by simp
        qed
      qed
      with j show ?L by (intro exI[of _ "Suc j"]) simp
    qed
    with False Cons.IH[of "Suc k"] show ?thesis by simp
  qed
qed

lemma indexOf_aux_None:
  "indexOf_aux pat xs k = None \<longleftrightarrow> (\<forall>j\<le>length xs. \<not> prefix pat (drop j xs))"
proof (induction xs arbitrary: k)
  case Nil
  then show ?case by auto
next
  case (Cons x xs)
  have "(\<forall>j\<le>length (x # xs). \<not> prefix pat (drop j (x # xs)))
      \<longleftrightarrow> \<not> prefix pat (x # xs) \<and> (\<forall>j\<le>length xs. \<not> prefix pat (drop j xs))"
    (is "?L \<longleftrightarrow> ?R")
  proof
    assume L: ?L
    have "\<not> prefix pat (drop 0 (x # xs))" using L by blast
    moreover have "\<forall>j\<le>length xs. \<not> prefix pat (drop j xs)"
    proof (intro allI impI)
      fix j assume "j \<le> length xs"
      then have "Suc j \<le> length (x # xs)" by simp
      with L have "\<not> prefix pat (drop (Suc j) (x # xs))" by blast
      then show "\<not> prefix pat (drop j xs)" by simp
    qed
    ultimately show ?R by simp
  next
    assume R: ?R
    show ?L
    proof (intro allI impI)
      fix j assume "j \<le> length (x # xs)"
      then show "\<not> prefix pat (drop j (x # xs))" using R by (cases j) auto
    qed
  qed
  with Cons.IH[of "Suc k"] show ?case by simp
qed

lemma indexOf_Some:
  assumes "position \<le> length text"
  shows "indexOf text pat position = Some m \<longleftrightarrow>
     position \<le> m \<and> occurs_at pat text m
       \<and> (\<forall>i. position \<le> i \<and> i < m \<longrightarrow> \<not> occurs_at pat text i)"
    (is "?L \<longleftrightarrow> ?R")
proof
  assume ?L
  with assms obtain j where j: "m = position + j" "j \<le> length (drop position text)"
      "prefix pat (drop j (drop position text))"
      "\<forall>i<j. \<not> prefix pat (drop i (drop position text))"
    by (auto simp: indexOf_def min_absorb1 indexOf_aux_Some)
  have "\<not> occurs_at pat text i" if "position \<le> i" "i < m" for i
  proof -
    from that j(1) have "i - position < j" by simp
    with j(4) have "\<not> prefix pat (drop (i - position) (drop position text))" by blast
    with that show ?thesis by (simp add: occurs_at_def)
  qed
  moreover from j assms have "occurs_at pat text m"
    by (simp add: occurs_at_def add.commute)
  ultimately show ?R using j(1) by simp
next
  assume R: ?R
  define j where "j = m - position"
  from R have m: "m = position + j" "m \<le> length text" "prefix pat (drop m text)"
    by (auto simp: j_def occurs_at_def)
  have "\<not> prefix pat (drop i (drop position text))" if "i < j" for i
  proof -
    from that m have "position + i < m" "position + i \<le> length text" by auto
    with R have "\<not> occurs_at pat text (position + i)" by simp
    with \<open>position + i \<le> length text\<close> show ?thesis
      by (simp add: occurs_at_def add.commute)
  qed
  with m assms show ?L
    by (auto simp: indexOf_def min_absorb1 indexOf_aux_Some add.commute intro!: exI[of _ j])
qed

lemma indexOf_None:
  assumes "position \<le> length text"
  shows "indexOf text pat position = None \<longleftrightarrow> (\<forall>i\<ge>position. \<not> occurs_at pat text i)"
    (is "?L \<longleftrightarrow> ?R")
proof
  assume L: ?L
  show ?R
  proof (intro allI impI)
    fix i assume i: "position \<le> i"
    show "\<not> occurs_at pat text i"
    proof
      assume o: "occurs_at pat text i"
      then have "i - position \<le> length (drop position text)" using i
        by (auto simp: occurs_at_def)
      with L assms have "\<not> prefix pat (drop (i - position) (drop position text))"
        by (simp add: indexOf_def min_absorb1 indexOf_aux_None)
      with o i show False by (simp add: occurs_at_def)
    qed
  qed
next
  assume R: ?R
  have "\<not> prefix pat (drop j (drop position text))" if "j \<le> length (drop position text)" for j
  proof -
    from that assms have "position + j \<le> length text" by simp
    moreover from R have "\<not> occurs_at pat text (position + j)" by simp
    ultimately show ?thesis by (simp add: occurs_at_def add.commute)
  qed
  with assms show ?L by (simp add: indexOf_def min_absorb1 indexOf_aux_None)
qed

lemma occurs_at_length:
  "occurs_at pat text i \<Longrightarrow> i + length pat \<le> length text"
  by (auto simp: occurs_at_def dest!: prefix_length_le)

lemma occurs_at_nth:
  assumes "occurs_at pat text i" "k < length pat"
  shows "text ! (i + k) = pat ! k"
proof -
  from assms(1) obtain r where "drop i text = pat @ r"
    by (auto simp: occurs_at_def prefix_def)
  then have "drop i text ! k = pat ! k" using assms(2) by (simp add: nth_append)
  moreover from assms have "i + k < length text" using occurs_at_length[OF assms(1)] by simp
  ultimately show ?thesis by simp
qed

lemma occurs_at_hd_in_set:
  assumes "occurs_at pat text i" "pat \<noteq> []"
  shows "hd pat \<in> set text"
proof -
  from assms have "0 < length pat" by simp
  with assms(1) have "text ! (i + 0) = pat ! 0" by (rule occurs_at_nth)
  moreover from occurs_at_length[OF assms(1)] assms(2) have "i < length text"
    by (cases pat) auto
  ultimately show ?thesis using assms(2) by (metis add.right_neutral hd_conv_nth nth_mem)
qed

lemma includes_iff: "includes_str text pat \<longleftrightarrow> (\<exists>i. occurs_at pat text i)"
proof -
  have "indexOf text pat 0 = None \<longleftrightarrow> (\<forall>i\<ge>0. \<not> occurs_at pat text i)"
    by (rule indexOf_None) simp
  then show ?thesis by (auto simp: includes_str_def)
qed

subsection \<open>Termination of the scanner\<close>

lemma indexOf_clamp: "indexOf text pat p = indexOf text pat (min p (length text))"
  by (simp add: indexOf_def)

lemma indexOf_SomeD:
  assumes "indexOf text pat p = Some m"
  shows "min p (length text) \<le> m" "occurs_at pat text m"
proof -
  have "indexOf text pat (min p (length text)) = Some m"
    using assms indexOf_clamp[of _ pat p] by simp
  then have "min p (length text) \<le> m \<and> occurs_at pat text m"
    by (subst (asm) indexOf_Some) auto
  then show "min p (length text) \<le> m" "occurs_at pat text m" by auto
qed

lemma hd_sort_key:
  assumes "xs \<noteq> []"
  shows "hd (sort_key f xs) \<in> set xs" "\<forall>x\<in>set xs. f (hd (sort_key f xs)) \<le> f x"
proof -
  define ys where "ys = sort_key f xs"
  have ne: "ys \<noteq> []" using assms unfolding ys_def by (metis length_0_conv length_sort)
  have s: "set ys = set xs" by (simp add: ys_def)
  have so: "sorted (map f ys)" by (simp add: ys_def)
  from ne obtain y ys' where y: "ys = y # ys'" by (cases ys) auto
  show "hd (sort_key f xs) \<in> set xs" using s y ys_def by auto
  show "\<forall>x\<in>set xs. f (hd (sort_key f xs)) \<le> f x"
    using so s y unfolding ys_def[symmetric] by auto
qed

lemma candidates_at_end:
  assumes "c \<in> set (candidates_at text after)"
  shows "min after (length text) < endExclusive c"
  using assms
  by (auto simp: candidates_at_def OSC_PROGRESS_ST_def OSC_PROGRESS_BEL_def OSC_PROGRESS_C1_ST_def
      split: option.splits dest!: indexOf_SomeD(1)[OF sym])

lemma findFrom_term1:
  assumes "searchFrom < length t" "indexOf t OSC_PROGRESS_PREFIX searchFrom = Some start"
  shows "searchFrom < start + length OSC_PROGRESS_PREFIX"
    "start + length OSC_PROGRESS_PREFIX \<le> length t"
proof -
  from assms(2) have o: "occurs_at OSC_PROGRESS_PREFIX t start"
    and "min searchFrom (length t) \<le> start"
    by (auto dest: indexOf_SomeD)
  with assms(1) show "searchFrom < start + length OSC_PROGRESS_PREFIX"
    by (simp add: OSC_PROGRESS_PREFIX_def)
  from o show "start + length OSC_PROGRESS_PREFIX \<le> length t" by (rule occurs_at_length)
qed

lemma findFrom_term2:
  assumes "searchFrom < length t" "indexOf t OSC_PROGRESS_PREFIX searchFrom = Some start"
    and "candidates_at t (start + length OSC_PROGRESS_PREFIX) \<noteq> []"
  shows "searchFrom <
    endExclusive (hd (sort_key endExclusive (candidates_at t (start + length OSC_PROGRESS_PREFIX))))"
proof -
  let ?after = "start + length OSC_PROGRESS_PREFIX"
  let ?best = "hd (sort_key endExclusive (candidates_at t ?after))"
  from assms(3) have "?best \<in> set (candidates_at t ?after)" by (rule hd_sort_key)
  then have "min ?after (length t) < endExclusive ?best" by (rule candidates_at_end)
  with findFrom_term1[OF assms(1,2)] show ?thesis by simp
qed

lemma findFrom_measure1:
  assumes "searchFrom < length t" "indexOf t OSC_PROGRESS_PREFIX searchFrom = Some start"
  shows "length t - (start + length OSC_PROGRESS_PREFIX) < length t - searchFrom"
  using findFrom_term1[OF assms] assms(1) by arith

lemma findFrom_measure2:
  assumes "searchFrom < length t" "indexOf t OSC_PROGRESS_PREFIX searchFrom = Some start"
    and "candidates_at t (start + length OSC_PROGRESS_PREFIX) \<noteq> []"
  shows "length t -
    endExclusive (hd (sort_key endExclusive (candidates_at t (start + length OSC_PROGRESS_PREFIX))))
    < length t - searchFrom"
  using findFrom_term2[OF assms] assms(1) by arith

termination findFrom
  by (relation "measure (\<lambda>(t, searchFrom). length t - searchFrom)")
    (auto intro: findFrom_measure1 findFrom_measure2)

lemma ends_at_candidates: "ends_at t after = map endExclusive (candidates_at t after)"
  by (simp add: ends_at_def candidates_at_def split: option.splits)

lemma min_list_least:
  assumes "xs \<noteq> []"
  shows "min_list xs \<in> set xs" "\<forall>x\<in>set xs. min_list xs \<le> (x::nat)"
proof -
  have "min_list xs = Min (set xs)" using assms by (rule min_list_Min)
  then show "min_list xs \<in> set xs" "\<forall>x\<in>set xs. min_list xs \<le> x"
    using assms by (auto intro: Min_in)
qed

lemma stripOscProgress_measure:
  assumes "indexOf c OSC_PROGRESS_PREFIX 0 = Some start"
  shows "length (slice_str c 0 start @ slice_from c
           (if length (ends_at c (start + length OSC_PROGRESS_PREFIX)) = 0 then length c
            else min_list (ends_at c (start + length OSC_PROGRESS_PREFIX)))) < length c"
proof -
  let ?after = "start + length OSC_PROGRESS_PREFIX"
  let ?ends = "ends_at c ?after"
  let ?cut = "if length ?ends = 0 then length c else min_list ?ends"
  from assms have "occurs_at OSC_PROGRESS_PREFIX c start" by (rule indexOf_SomeD)
  then have len: "?after \<le> length c" by (rule occurs_at_length)
  then have lt: "start < length c" by (simp add: OSC_PROGRESS_PREFIX_def)
  have "start < ?cut"
  proof (cases "?ends = []")
    case True
    with lt show ?thesis by simp
  next
    case False
    then have "min_list ?ends \<in> set ?ends" by (rule min_list_least)
    then obtain cd where "cd \<in> set (candidates_at c ?after)" "min_list ?ends = endExclusive cd"
      by (auto simp: ends_at_candidates)
    with candidates_at_end[of cd c ?after] len have "?after < min_list ?ends" by simp
    with False show ?thesis by simp
  qed
  with lt show ?thesis by (simp add: slice_str_def slice_from_def)
qed

termination stripOscProgress
  by (relation "measure length")
    (auto simp only: in_measure wf_measure intro: stripOscProgress_measure)

subsection \<open>The first terminator after a prefix\<close>

lemma indexOf_exists:
  assumes "after \<le> length t"
  shows "(\<exists>m. indexOf t pat after = Some m) \<longleftrightarrow> (\<exists>j\<ge>after. occurs_at pat t j)"
  using indexOf_None[OF assms, of pat] by (cases "indexOf t pat after") auto

lemma term_chars_cases:
  "term_chars SeqSt = OSC_PROGRESS_ST" "term_chars SeqBel = OSC_PROGRESS_BEL"
  "term_chars SeqC1st = OSC_PROGRESS_C1_ST"
  by (simp_all add: term_chars_def)

lemma candidates_at_iff:
  "c \<in> set (candidates_at t after) \<longleftrightarrow>
     (\<exists>m. indexOf t (term_chars (cand_terminator c)) after = Some m
          \<and> endExclusive c = m + length (term_chars (cand_terminator c)))"
proof -
  obtain e k where c: "c = \<lparr>endExclusive = e, cand_terminator = k\<rparr>" by (cases c) auto
  show ?thesis unfolding c
    by (cases k) (auto simp: candidates_at_def term_chars_cases split: option.splits)
qed

lemma candidates_at_Nil:
  assumes "after \<le> length t"
  shows "candidates_at t after = [] \<longleftrightarrow> (\<forall>k j. after \<le> j \<longrightarrow> \<not> occurs_at (term_chars k) t j)"
proof
  assume e: "candidates_at t after = []"
  show "\<forall>k j. after \<le> j \<longrightarrow> \<not> occurs_at (term_chars k) t j"
  proof (intro allI impI)
    fix k j assume j: "after \<le> j"
    from e have "indexOf t (term_chars k) after = None"
      by (cases k) (auto simp: candidates_at_def term_chars_cases split: option.splits)
    with indexOf_None[OF assms] j show "\<not> occurs_at (term_chars k) t j" by blast
  qed
next
  assume a: "\<forall>k j. after \<le> j \<longrightarrow> \<not> occurs_at (term_chars k) t j"
  have "indexOf t (term_chars k) after = None" for k
    using indexOf_None[OF assms, of "term_chars k"] a by blast
  from this[of SeqSt] this[of SeqBel] this[of SeqC1st]
  show "candidates_at t after = []"
    by (simp add: candidates_at_def term_chars_cases)
qed

lemma candidate_first_end:
  assumes "after \<le> length t" "c \<in> set (candidates_at t after)"
    and "\<forall>c'\<in>set (candidates_at t after). endExclusive c \<le> endExclusive c'"
  shows "first_end t after (endExclusive c) (cand_terminator c)"
proof -
  let ?k = "cand_terminator c"
  from assms(2) obtain m where m: "indexOf t (term_chars ?k) after = Some m"
    "endExclusive c = m + length (term_chars ?k)"
    by (auto simp: candidates_at_iff)
  from m(1) assms(1) have "after \<le> m" "occurs_at (term_chars ?k) t m"
    by (auto dest: indexOf_SomeD)
  moreover have "endExclusive c \<le> j + length (term_chars k')"
    if "after \<le> j" "occurs_at (term_chars k') t j" for k' j
  proof -
    from that indexOf_exists[OF assms(1), of "term_chars k'"]
    obtain m' where m': "indexOf t (term_chars k') after = Some m'" by blast
    then have "m' \<le> j" using indexOf_Some[OF assms(1), of "term_chars k'" m'] that
      by (meson not_le_imp_less)
    let ?c' = "\<lparr>endExclusive = m' + length (term_chars k'), cand_terminator = k'\<rparr>"
    have "?c' \<in> set (candidates_at t after)" using m' by (simp add: candidates_at_iff)
    with assms(3) have "endExclusive c \<le> m' + length (term_chars k')" by fastforce
    with \<open>m' \<le> j\<close> show ?thesis by simp
  qed
  ultimately show ?thesis using m(2) by (simp add: first_end_def)
qed

lemma first_end_unique:
  assumes "first_end t after e k" "first_end t after e' k'"
  shows "e = e'"
proof -
  from assms have "e \<le> e'" "e' \<le> e"
    unfolding first_end_def by (metis le_add_diff_inverse2)+
  then show ?thesis by simp
qed

lemma best_first_end:
  assumes "after \<le> length t" "candidates_at t after \<noteq> []"
  defines "best \<equiv> hd (sort_key endExclusive (candidates_at t after))"
  shows "first_end t after (endExclusive best) (cand_terminator best)"
  using assms(1) hd_sort_key[OF assms(2), of endExclusive]
  unfolding best_def by (intro candidate_first_end) auto

lemma min_list_first_end:
  assumes "after \<le> length t" "ends_at t after \<noteq> []"
  shows "\<exists>k. first_end t after (min_list (ends_at t after)) k"
proof -
  from min_list_least[OF assms(2)]
  obtain c where c: "c \<in> set (candidates_at t after)" "min_list (ends_at t after) = endExclusive c"
    and le: "\<forall>x\<in>set (ends_at t after). min_list (ends_at t after) \<le> x"
    by (auto simp: ends_at_candidates)
  from le c(2) have "\<forall>c'\<in>set (candidates_at t after). endExclusive c \<le> endExclusive c'"
    by (simp add: ends_at_candidates)
  from candidate_first_end[OF assms(1) c(1) this] c(2) show ?thesis by auto
qed

declare findFrom.simps [simp del] stripOscProgress.simps [simp del]

lemma occurs_at_hd:
  assumes "occurs_at pat t i" "pat \<noteq> []"
  shows "i < length t" "t ! i = hd pat"
proof -
  from assms(2) have l: "0 < length pat" by simp
  from occurs_at_length[OF assms(1)] l show "i < length t" by linarith
  from occurs_at_nth[OF assms(1) l] assms(2) show "t ! i = hd pat"
    by (simp add: hd_conv_nth)
qed

lemma occurs_at_append_iff:
  assumes "i + length pat \<le> length xs"
  shows "occurs_at pat (xs @ ys) i \<longleftrightarrow> occurs_at pat xs i"
proof -
  from assms have "length pat \<le> length (drop i xs)" by simp
  then have "prefix pat (drop i xs @ ys) \<longleftrightarrow> prefix pat (drop i xs)"
    by (metis append_eq_append_conv_if append_take_drop_id prefixE prefixI prefix_length_le
        le_antisym linorder_le_cases take_all_iff)
  with assms show ?thesis by (simp add: occurs_at_def)
qed

lemma occurs_at_shift:
  assumes "length xs \<le> i"
  shows "occurs_at pat (xs @ ys) i \<longleftrightarrow> occurs_at pat ys (i - length xs)"
  using assms by (auto simp: occurs_at_def)

lemma occurs_at_here: "occurs_at pat (xs @ pat @ r) (length xs)"
  by (simp add: occurs_at_def)

lemma occurs_at_straddle:
  assumes "occurs_at pat (xs @ ys) i" "i < length xs" "length xs < i + length pat"
  shows "ys \<noteq> []" "hd ys \<in> set (tl pat)" "last xs \<in> set (butlast pat)"
proof -
  define d where "d = length xs - i"
  from assms have d: "0 < d" "d < length pat" "i + d = length xs" by (auto simp: d_def)
  from occurs_at_length[OF assms(1)] assms(3) show ne: "ys \<noteq> []" by auto
  from occurs_at_nth[OF assms(1) d(2)] d(3) ne have "hd ys = pat ! d"
    by (simp add: nth_append hd_conv_nth)
  also from d have "pat ! d = tl pat ! (d - 1)" by (simp add: nth_tl)
  also from d have "\<dots> \<in> set (tl pat)" by (intro nth_mem) simp
  finally show "hd ys \<in> set (tl pat)" .
  from d have d1: "d - 1 < length pat" by simp
  from assms(2) have xne: "xs \<noteq> []" by auto
  from occurs_at_nth[OF assms(1) d1] d xne have "last xs = pat ! (d - 1)"
    by (simp add: nth_append last_conv_nth)
  also from d have "\<dots> = butlast pat ! (d - 1)" by (simp add: nth_butlast)
  also from d have "\<dots> \<in> set (butlast pat)" by (intro nth_mem) simp
  finally show "last xs \<in> set (butlast pat)" .
qed

subsection \<open>One iteration of \<open>stripOscProgress\<close>\<close>

lemma prefix_len [simp]: "length OSC_PROGRESS_PREFIX = 6"
  by (simp add: OSC_PROGRESS_PREFIX_def)

lemma strip_none:
  assumes "indexOf c OSC_PROGRESS_PREFIX 0 = None"
  shows "stripOscProgress c = c"
  using assms by (subst stripOscProgress.simps) (simp add: includes_str_def)

lemma ends_at_Nil:
  assumes "after \<le> length t"
  shows "ends_at t after = [] \<longleftrightarrow> (\<forall>k j. after \<le> j \<longrightarrow> \<not> occurs_at (term_chars k) t j)"
  using candidates_at_Nil[OF assms] by (simp add: ends_at_candidates)

lemma first_end_occurs:
  assumes "first_end t after e k"
  shows "\<exists>k j. after \<le> j \<and> occurs_at (term_chars k) t j"
  using assms unfolding first_end_def by blast

lemma first_end_bounds:
  assumes "first_end t after e k"
  shows "after < e" "e \<le> length t"
proof -
  have "length (term_chars k) > 0" by (cases k) (simp_all add: term_chars_cases
        OSC_PROGRESS_ST_def OSC_PROGRESS_BEL_def OSC_PROGRESS_C1_ST_def)
  with assms show "after < e" unfolding first_end_def by linarith
  from assms have "occurs_at (term_chars k) t (e - length (term_chars k))"
    "length (term_chars k) \<le> e" by (auto simp: first_end_def)
  from occurs_at_length[OF this(1)] this(2) show "e \<le> length t" by simp
qed

lemma strip_unterminated_step:
  assumes "indexOf c OSC_PROGRESS_PREFIX 0 = Some start"
    and "\<forall>k j. start + 6 \<le> j \<longrightarrow> \<not> occurs_at (term_chars k) c j"
  shows "stripOscProgress c = stripOscProgress (take start c)"
proof -
  from assms(1) have "occurs_at OSC_PROGRESS_PREFIX c start" by (rule indexOf_SomeD)
  from occurs_at_length[OF this] have "start + 6 \<le> length c" by simp
  from ends_at_Nil[OF this] assms(2) have "ends_at c (start + 6) = []" by simp
  with assms(1) show ?thesis
    by (subst stripOscProgress.simps) (simp add: includes_str_def slice_str_def slice_from_def)
qed

lemma strip_cut_step:
  assumes "indexOf c OSC_PROGRESS_PREFIX 0 = Some start"
    and "first_end c (start + 6) e k"
  shows "stripOscProgress c = stripOscProgress (take start c @ drop e c)"
proof -
  from assms(1) have "occurs_at OSC_PROGRESS_PREFIX c start" by (rule indexOf_SomeD)
  from occurs_at_length[OF this] have len: "start + 6 \<le> length c" by simp
  from first_end_occurs[OF assms(2)] ends_at_Nil[OF len]
  have ne: "ends_at c (start + 6) \<noteq> []" by blast
  from min_list_first_end[OF len ne] obtain k' where
    "first_end c (start + 6) (min_list (ends_at c (start + 6))) k'" ..
  from first_end_unique[OF this assms(2)] have "min_list (ends_at c (start + 6)) = e" .
  with assms(1) ne show ?thesis
    by (subst stripOscProgress.simps) (simp add: includes_str_def slice_str_def slice_from_def)
qed

text \<open>The cases of one iteration, and induction along the loop.\<close>

lemma terminator_cases:
  assumes "after \<le> length t"
  obtains (none) "\<forall>k j. after \<le> j \<longrightarrow> \<not> occurs_at (term_chars k) t j"
  | (some) e k where "first_end t after e k"
proof (cases "candidates_at t after = []")
  case True
  with candidates_at_Nil[OF assms] none show ?thesis by blast
next
  case False
  from best_first_end[OF assms False] some show ?thesis by blast
qed

lemma strip_induct [case_names none unterminated cut]:
  assumes "\<And>c. indexOf c OSC_PROGRESS_PREFIX 0 = None \<Longrightarrow> Q c"
    and "\<And>c start. indexOf c OSC_PROGRESS_PREFIX 0 = Some start \<Longrightarrow>
          \<forall>k j. start + 6 \<le> j \<longrightarrow> \<not> occurs_at (term_chars k) c j \<Longrightarrow> Q (take start c) \<Longrightarrow> Q c"
    and "\<And>c start e k. indexOf c OSC_PROGRESS_PREFIX 0 = Some start \<Longrightarrow>
          first_end c (start + 6) e k \<Longrightarrow> Q (take start c @ drop e c) \<Longrightarrow> Q c"
  shows "Q c"
proof (induction c rule: length_induct)
  case (1 c)
  show ?case
  proof (cases "indexOf c OSC_PROGRESS_PREFIX 0")
    case None
    then show ?thesis by (rule assms(1))
  next
    case (Some start)
    then have "occurs_at OSC_PROGRESS_PREFIX c start" by (rule indexOf_SomeD)
    from occurs_at_length[OF this] have len: "start + 6 \<le> length c" by simp
    from len show ?thesis
    proof (cases rule: terminator_cases)
      case none
      from len have "length (take start c) < length c" by simp
      with 1 have "Q (take start c)" by blast
      with Some none show ?thesis by (rule assms(2))
    next
      case (some e k)
      from first_end_bounds[OF some] len have "length (take start c @ drop e c) < length c"
        by simp
      with 1 have "Q (take start c @ drop e c)" by blast
      with Some some show ?thesis by (rule assms(3))
    qed
  qed
qed

lemma strip_no_prefix: "indexOf (stripOscProgress c) OSC_PROGRESS_PREFIX 0 = None"
proof (induction c rule: strip_induct)
  case (none c)
  then show ?case by (simp add: strip_none)
next
  case (unterminated c start)
  then show ?case by (simp add: strip_unterminated_step)
next
  case (cut c start e k)
  then show ?case by (simp add: strip_cut_step)
qed

subsection \<open>One iteration of \<open>findOscProgressSequences\<close>\<close>

lemma term_chars_nonempty [simp]: "term_chars k \<noteq> []"
  by (cases k) (simp_all add: term_chars_cases
      OSC_PROGRESS_ST_def OSC_PROGRESS_BEL_def OSC_PROGRESS_C1_ST_def)

lemma first_end_kind_unique:
  assumes "first_end t after e k" "first_end t after e k'"
  shows "k = k'"
proof -
  from assms have o: "occurs_at (term_chars k) t (e - length (term_chars k))"
      "occurs_at (term_chars k') t (e - length (term_chars k'))"
    and l: "length (term_chars k) \<le> e" "length (term_chars k') \<le> e"
    by (auto simp: first_end_def)
  have last: "t ! (e - 1) = last (term_chars k)" if "occurs_at (term_chars k) t (e - length (term_chars k))"
    "length (term_chars k) \<le> e" for k
  proof -
    have n: "0 < length (term_chars k)" by simp
    then have "length (term_chars k) - 1 < length (term_chars k)" by simp
    from occurs_at_nth[OF that(1) this]
    have "t ! (e - length (term_chars k) + (length (term_chars k) - 1))
        = last (term_chars k)" by (simp add: last_conv_nth)
    moreover from n that(2)
    have "e - length (term_chars k) + (length (term_chars k) - 1) = e - 1" by linarith
    ultimately show ?thesis by simp
  qed
  from last[OF o(1) l(1)] last[OF o(2) l(2)]
  have "last (term_chars k) = last (term_chars k')" by simp
  then show ?thesis
    by (cases k; cases k') (simp_all add: term_chars_cases
      OSC_PROGRESS_ST_def OSC_PROGRESS_BEL_def OSC_PROGRESS_C1_ST_def)
qed

lemma find_done: "\<not> s < length t \<Longrightarrow> findFrom t s = []"
  by (subst findFrom.simps) simp

lemma find_none: "indexOf t OSC_PROGRESS_PREFIX s = None \<Longrightarrow> findFrom t s = []"
  by (subst findFrom.simps) simp

lemma find_skip:
  assumes "s < length t" "indexOf t OSC_PROGRESS_PREFIX s = Some start"
    and "\<forall>k j. start + 6 \<le> j \<longrightarrow> \<not> occurs_at (term_chars k) t j"
  shows "findFrom t s = findFrom t (start + 6)"
proof -
  from assms(2) have "occurs_at OSC_PROGRESS_PREFIX t start" by (rule indexOf_SomeD)
  from occurs_at_length[OF this] have "start + 6 \<le> length t" by simp
  from candidates_at_Nil[OF this] assms(3) have "candidates_at t (start + 6) = []" by simp
  with assms(1,2) show ?thesis by (subst findFrom.simps) simp
qed

lemma find_match:
  assumes "s < length t" "indexOf t OSC_PROGRESS_PREFIX s = Some start"
    and "first_end t (start + 6) e k"
  shows "findFrom t s =
    \<lparr>seq_start = start, seq_end = e, raw = slice_str t start e, seq_terminator = k\<rparr>
    # findFrom t e"
proof -
  from assms(2) have "occurs_at OSC_PROGRESS_PREFIX t start" by (rule indexOf_SomeD)
  from occurs_at_length[OF this] have len: "start + 6 \<le> length t" by simp
  from first_end_occurs[OF assms(3)] candidates_at_Nil[OF len]
  have ne: "candidates_at t (start + 6) \<noteq> []" by blast
  let ?best = "hd (sort_key endExclusive (candidates_at t (start + 6)))"
  from best_first_end[OF len ne]
  have b: "first_end t (start + 6) (endExclusive ?best) (cand_terminator ?best)" .
  from first_end_unique[OF b assms(3)] have e: "endExclusive ?best = e" .
  from b have "first_end t (start + 6) e (cand_terminator ?best)" by (simp add: e)
  from first_end_kind_unique[OF this assms(3)] have k: "cand_terminator ?best = k" .
  from assms(1,2) ne show ?thesis
    by (subst findFrom.simps) (simp add: Let_def e k)
qed

lemma find_induct [case_names finished absent skip found]:
  assumes "\<And>s. \<not> s < length t \<Longrightarrow> Q s"
    and "\<And>s. s < length t \<Longrightarrow> indexOf t OSC_PROGRESS_PREFIX s = None \<Longrightarrow> Q s"
    and "\<And>s start. s < length t \<Longrightarrow> indexOf t OSC_PROGRESS_PREFIX s = Some start \<Longrightarrow>
          \<forall>k j. start + 6 \<le> j \<longrightarrow> \<not> occurs_at (term_chars k) t j \<Longrightarrow> Q (start + 6) \<Longrightarrow> Q s"
    and "\<And>s start e k. s < length t \<Longrightarrow> indexOf t OSC_PROGRESS_PREFIX s = Some start \<Longrightarrow>
          first_end t (start + 6) e k \<Longrightarrow> Q e \<Longrightarrow> Q s"
  shows "Q s"
proof (induction "length t - s" arbitrary: s rule: less_induct)
  case less
  show ?case
  proof (cases "s < length t")
    case False
    then show ?thesis by (rule assms(1))
  next
    case True
    show ?thesis
    proof (cases "indexOf t OSC_PROGRESS_PREFIX s")
      case None
      with True show ?thesis by (rule assms(2))
    next
      case (Some start)
      from findFrom_term1[OF True Some] have len: "s < start + 6" "start + 6 \<le> length t"
        by simp_all
      from len(2) show ?thesis
      proof (cases rule: terminator_cases)
        case none
        from len True have "length t - (start + 6) < length t - s" by simp
        then have "Q (start + 6)" by (rule less)
        with True Some none show ?thesis by (rule assms(3))
      next
        case (some e k)
        from first_end_bounds[OF some] len True have "length t - e < length t - s" by simp
        then have "Q e" by (rule less)
        with True Some some show ?thesis by (rule assms(4))
      qed
    qed
  qed
qed

text \<open>Every sequence found starts at a prefix and ends at the first terminator end.\<close>

lemma findFrom_sound:
  "\<forall>m\<in>set (findFrom t s).
      s \<le> seq_start m \<and> occurs_at OSC_PROGRESS_PREFIX t (seq_start m)
    \<and> first_end t (seq_start m + 6) (seq_end m) (seq_terminator m)
    \<and> raw m = slice_str t (seq_start m) (seq_end m)"
proof (induction s rule: find_induct[of t])
  case (finished s)
  then show ?case by (simp add: find_done)
next
  case (absent s)
  then show ?case by (simp add: find_none)
next
  case (skip s start)
  from findFrom_term1[OF skip(1,2)] have "s \<le> start + 6" by simp
  with skip show ?case by (auto simp: find_skip)
next
  case (found s start e k)
  from found(1,2) have st: "s \<le> start" "occurs_at OSC_PROGRESS_PREFIX t start"
    by (auto dest: indexOf_SomeD)
  from first_end_bounds[OF found(3)] st have "s \<le> e" by simp
  with found st show ?case by (auto simp: find_match)
qed

subsection \<open>A frame inside a text\<close>

lemma term_chars_hd: "hd (term_chars k) \<in> {0x1b, 0x07, 0x9c}"
  by (cases k) (simp_all add: term_chars_cases
      OSC_PROGRESS_ST_def OSC_PROGRESS_BEL_def OSC_PROGRESS_C1_ST_def)

lemma term_chars_length: "1 \<le> length (term_chars k)" "length (term_chars k) \<le> 2"
  by (cases k; simp add: term_chars_cases
      OSC_PROGRESS_ST_def OSC_PROGRESS_BEL_def OSC_PROGRESS_C1_ST_def)+

lemma frame_first_end:
  assumes "frame_body body"
  shows "first_end (a @ OSC_PROGRESS_PREFIX @ body @ term_chars k @ rest) (length a + 6)
           (length a + 6 + length body + length (term_chars k)) k"
proof -
  let ?T = "a @ OSC_PROGRESS_PREFIX @ body @ term_chars k @ rest"
  define q where "q = length a + 6 + length body"
  have "occurs_at (term_chars k) ((a @ OSC_PROGRESS_PREFIX @ body) @ term_chars k @ rest)
          (length (a @ OSC_PROGRESS_PREFIX @ body))"
    by (rule occurs_at_here)
  then have occ: "occurs_at (term_chars k) ?T q" by (simp add: q_def add.assoc)
  have least: "q + length (term_chars k) \<le> j + length (term_chars k')"
    if j: "length a + 6 \<le> j" and o: "occurs_at (term_chars k') ?T j" for k' j
  proof -
    from occurs_at_hd[OF o] have h: "j < length ?T" "?T ! j = hd (term_chars k')" by simp_all
    have qj: "q \<le> j"
    proof (rule ccontr)
      assume "\<not> q \<le> j"
      define n where "n = j - (length a + 6)"
      with j \<open>\<not> q \<le> j\<close> have n: "j = length (a @ OSC_PROGRESS_PREFIX) + n" "n < length body"
        by (simp_all add: q_def)
      have "((a @ OSC_PROGRESS_PREFIX) @ body @ term_chars k @ rest)
              ! (length (a @ OSC_PROGRESS_PREFIX) + n) = (body @ term_chars k @ rest) ! n"
        by (rule nth_append_length_plus)
      also have "\<dots> = body ! n" using n(2) by (simp add: nth_append)
      finally have "?T ! j = body ! n" using n(1) by simp
      with n(2) have "?T ! j \<in> set body" by simp
      with h(2) term_chars_hd[of k'] assms show False by (auto simp: frame_body_def)
    qed
    show ?thesis
    proof (cases "q < j")
      case True
      with term_chars_length[of k] term_chars_length[of k'] show ?thesis by linarith
    next
      case False
      with qj have "j = q" by simp
      have "?T ! q = hd (term_chars k)"
        using occurs_at_hd[OF occ] by simp
      with h(2) \<open>j = q\<close> have "hd (term_chars k') = hd (term_chars k)" by simp
      then have "k' = k"
        by (cases k; cases k') (simp_all add: term_chars_cases
            OSC_PROGRESS_ST_def OSC_PROGRESS_BEL_def OSC_PROGRESS_C1_ST_def)
      with \<open>j = q\<close> show ?thesis by simp
    qed
  qed
  from occ least term_chars_length[of k] show ?thesis
    unfolding first_end_def q_def by (auto simp: add.assoc)
qed

lemma prefix_hd [simp]: "hd OSC_PROGRESS_PREFIX = 0x1b" "OSC_PROGRESS_PREFIX \<noteq> []"
  "0x1b \<notin> set (tl OSC_PROGRESS_PREFIX)"
  by (simp_all add: OSC_PROGRESS_PREFIX_def)

text \<open>A text without ESC holds no prefix; a prefix cannot straddle into a text that
  starts with ESC.\<close>

lemma no_ESC_no_prefix:
  assumes "0x1b \<notin> set a"
  shows "\<not> occurs_at OSC_PROGRESS_PREFIX a i"
proof
  assume "occurs_at OSC_PROGRESS_PREFIX a i"
  then have "hd OSC_PROGRESS_PREFIX \<in> set a" by (rule occurs_at_hd_in_set) simp
  with assms show False by simp
qed

lemma prefix_before_ESC:
  assumes "occurs_at OSC_PROGRESS_PREFIX (a @ r) i" "i < length a" "r \<noteq> []" "hd r = 0x1b"
  shows "occurs_at OSC_PROGRESS_PREFIX a i"
proof -
  have "i + length OSC_PROGRESS_PREFIX \<le> length a"
  proof (rule ccontr)
    assume "\<not> i + length OSC_PROGRESS_PREFIX \<le> length a"
    then have "length a < i + length OSC_PROGRESS_PREFIX" by simp
    from occurs_at_straddle(2)[OF assms(1,2) this] assms(4) show False by simp
  qed
  with assms(1) show ?thesis by (simp add: occurs_at_append_iff)
qed

lemma indexOf_prefix_append:
  assumes "r \<noteq> []" "hd r = 0x1b" "occurs_at OSC_PROGRESS_PREFIX r 0"
  shows "indexOf (a @ r) OSC_PROGRESS_PREFIX 0 =
     (case indexOf a OSC_PROGRESS_PREFIX 0 of None \<Rightarrow> Some (length a) | Some p0 \<Rightarrow> Some p0)"
proof (cases "indexOf a OSC_PROGRESS_PREFIX 0")
  case None
  then have no: "\<not> occurs_at OSC_PROGRESS_PREFIX a i" for i
    using indexOf_None[of 0 a OSC_PROGRESS_PREFIX] by simp
  have "occurs_at OSC_PROGRESS_PREFIX (a @ r) (length a)"
    using assms(3) by (simp add: occurs_at_shift)
  moreover have "\<not> occurs_at OSC_PROGRESS_PREFIX (a @ r) i" if "i < length a" for i
    using prefix_before_ESC[OF _ that assms(1,2)] no by blast
  ultimately have "indexOf (a @ r) OSC_PROGRESS_PREFIX 0 = Some (length a)"
    by (subst indexOf_Some) auto
  with None show ?thesis by simp
next
  case (Some p0)
  then have p0: "occurs_at OSC_PROGRESS_PREFIX a p0"
    "\<forall>i<p0. \<not> occurs_at OSC_PROGRESS_PREFIX a i"
    using indexOf_Some[of 0 a OSC_PROGRESS_PREFIX p0] by simp_all
  from occurs_at_length[OF p0(1)] have l: "p0 + length OSC_PROGRESS_PREFIX \<le> length a" .
  then have "occurs_at OSC_PROGRESS_PREFIX (a @ r) p0"
    using p0(1) by (simp add: occurs_at_append_iff)
  moreover have "\<not> occurs_at OSC_PROGRESS_PREFIX (a @ r) i" if "i < p0" for i
  proof -
    from that l have "i < length a" by simp
    from prefix_before_ESC[OF _ this assms(1,2)] p0(2) that show ?thesis by blast
  qed
  ultimately have "indexOf (a @ r) OSC_PROGRESS_PREFIX 0 = Some p0"
    by (subst indexOf_Some) auto
  with Some show ?thesis by simp
qed

subsection \<open>Stripping frames\<close>

lemma strip_plain: "plain a \<Longrightarrow> stripOscProgress a = a"
proof (rule strip_none)
  assume "plain a"
  then have "\<forall>i\<ge>0. \<not> occurs_at OSC_PROGRESS_PREFIX a i"
    by (simp add: plain_def no_ESC_no_prefix)
  then show "indexOf a OSC_PROGRESS_PREFIX 0 = None" by (subst indexOf_None) simp_all
qed

lemma plain_indexOf: "plain a \<Longrightarrow> indexOf a OSC_PROGRESS_PREFIX 0 = None"
  by (subst indexOf_None) (simp_all add: plain_def no_ESC_no_prefix)

lemma strip_frame:
  assumes "plain a" "frame_body b"
  shows "stripOscProgress (a @ OSC_PROGRESS_PREFIX @ b @ term_chars k @ rest)
       = stripOscProgress (a @ rest)"
proof -
  let ?r = "OSC_PROGRESS_PREFIX @ b @ term_chars k @ rest"
  have "occurs_at OSC_PROGRESS_PREFIX ([] @ OSC_PROGRESS_PREFIX @ (b @ term_chars k @ rest)) (length ([] :: jsstring))"
    by (rule occurs_at_here)
  then have "occurs_at OSC_PROGRESS_PREFIX ?r 0" by simp
  then have "indexOf (a @ ?r) OSC_PROGRESS_PREFIX 0 = Some (length a)"
    using plain_indexOf[OF assms(1)] by (subst indexOf_prefix_append) simp_all
  moreover have "first_end (a @ ?r) (length a + 6)
           (length a + 6 + length b + length (term_chars k)) k"
    using assms(2) by (rule frame_first_end)
  ultimately have "stripOscProgress (a @ ?r) = stripOscProgress (take (length a) (a @ ?r)
      @ drop (length a + 6 + length b + length (term_chars k)) (a @ ?r))"
    by (rule strip_cut_step)
  then show ?thesis by simp
qed

lemma strip_interleave:
  assumes "plain acc" "\<forall>(p, b, k)\<in>set segs. plain p \<and> frame_body b" "plain tail"
  shows "stripOscProgress (acc @ interleave segs tail) = acc @ concat (map fst segs) @ tail"
  using assms
proof (induction segs arbitrary: acc)
  case Nil
  then have "plain (acc @ tail)" by (simp add: plain_def)
  then show ?case by (simp add: strip_plain)
next
  case (Cons seg segs)
  obtain p b k where seg: "seg = (p, b, k)" by (cases seg) auto
  with Cons.prems have pb: "plain p" "frame_body b"
    and rest: "\<forall>(p, b, k)\<in>set segs. plain p \<and> frame_body b" by auto
  from Cons.prems(1) pb(1) have ap: "plain (acc @ p)" by (simp add: plain_def)
  have "stripOscProgress (acc @ interleave (seg # segs) tail)
      = stripOscProgress ((acc @ p) @ OSC_PROGRESS_PREFIX @ b @ term_chars k @ interleave segs tail)"
    by (simp add: seg)
  also have "\<dots> = stripOscProgress ((acc @ p) @ interleave segs tail)"
    using ap pb(2) by (rule strip_frame)
  also have "\<dots> = (acc @ p) @ concat (map fst segs) @ tail"
    using ap rest Cons.prems(3) by (rule Cons.IH)
  finally show ?case by (simp add: seg)
qed

subsection \<open>An unterminated prefix\<close>

lemma no_term_in_prefix: "\<not> occurs_at (term_chars k) OSC_PROGRESS_PREFIX j"
proof -
  have "indexOf OSC_PROGRESS_PREFIX (term_chars k) 0 = None"
    by (cases k) (simp_all add: term_chars_cases indexOf_def OSC_PROGRESS_PREFIX_def
        OSC_PROGRESS_ST_def OSC_PROGRESS_BEL_def OSC_PROGRESS_C1_ST_def)
  then show ?thesis using indexOf_None[of 0 OSC_PROGRESS_PREFIX "term_chars k"] by simp
qed

lemma term_chars_tl: "0x1b \<notin> set (tl (term_chars k))" "0x3b \<notin> set (butlast (term_chars k))"
  by (cases k; simp add: term_chars_cases
      OSC_PROGRESS_ST_def OSC_PROGRESS_BEL_def OSC_PROGRESS_C1_ST_def)+

lemma term_in_front:
  assumes "\<forall>k j. \<not> occurs_at (term_chars k) b j"
    and o: "occurs_at (term_chars k) (a @ OSC_PROGRESS_PREFIX @ b) j"
  shows "j + length (term_chars k) \<le> length a"
proof (rule ccontr)
  assume "\<not> j + length (term_chars k) \<le> length a"
  then have gt: "length a < j + length (term_chars k)" by simp
  show False
  proof (cases "j < length a")
    case True
    from occurs_at_straddle(2)[OF o True gt] term_chars_tl(1)[of k] show False by simp
  next
    case False
    then have "occurs_at (term_chars k) (OSC_PROGRESS_PREFIX @ b) (j - length a)"
      using o by (simp add: occurs_at_shift)
    moreover define j' where "j' = j - length a"
    ultimately have o': "occurs_at (term_chars k) (OSC_PROGRESS_PREFIX @ b) j'" by simp
    show False
    proof (cases "length OSC_PROGRESS_PREFIX \<le> j'")
      case True
      with o' have "occurs_at (term_chars k) b (j' - length OSC_PROGRESS_PREFIX)"
        by (simp only: occurs_at_shift)
      with assms(1) show False by blast
    next
      case False
      then have lt: "j' < length OSC_PROGRESS_PREFIX" by simp
      show False
      proof (cases "j' + length (term_chars k) \<le> length OSC_PROGRESS_PREFIX")
        case True
        with o' have "occurs_at (term_chars k) OSC_PROGRESS_PREFIX j'"
          by (simp only: occurs_at_append_iff)
        with no_term_in_prefix show False by blast
      next
        case False
        then have "length OSC_PROGRESS_PREFIX < j' + length (term_chars k)" by simp
        from occurs_at_straddle(3)[OF o' lt this] term_chars_tl(2)[of k]
        show False by (simp add: OSC_PROGRESS_PREFIX_def)
      qed
    qed
  qed
qed

lemma term_in_front_iff:
  assumes "\<forall>k j. \<not> occurs_at (term_chars k) b j"
  shows "occurs_at (term_chars k) (a @ OSC_PROGRESS_PREFIX @ b) j \<longleftrightarrow> occurs_at (term_chars k) a j"
proof
  assume o: "occurs_at (term_chars k) (a @ OSC_PROGRESS_PREFIX @ b) j"
  from term_in_front[OF assms o] o show "occurs_at (term_chars k) a j"
    by (simp add: occurs_at_append_iff)
next
  assume o: "occurs_at (term_chars k) a j"
  from occurs_at_length[OF o] o show "occurs_at (term_chars k) (a @ OSC_PROGRESS_PREFIX @ b) j"
    by (simp add: occurs_at_append_iff)
qed

lemma strip_unterminated_prefix:
  assumes "\<forall>k j. \<not> occurs_at (term_chars k) b j"
  shows "stripOscProgress (a @ OSC_PROGRESS_PREFIX @ b) = stripOscProgress a"
proof (induction a rule: strip_induct)
  case (none c)
  let ?T = "c @ OSC_PROGRESS_PREFIX @ b"
  have "occurs_at OSC_PROGRESS_PREFIX ([] @ OSC_PROGRESS_PREFIX @ b) (length ([] :: jsstring))"
    by (rule occurs_at_here)
  then have "occurs_at OSC_PROGRESS_PREFIX (OSC_PROGRESS_PREFIX @ b) 0" by simp
  then have i: "indexOf ?T OSC_PROGRESS_PREFIX 0 = Some (length c)"
    using none by (subst indexOf_prefix_append) simp_all
  have "\<forall>k j. length c + 6 \<le> j \<longrightarrow> \<not> occurs_at (term_chars k) ?T j"
    using term_in_front[OF assms, of _ c] by fastforce
  with i have "stripOscProgress ?T = stripOscProgress (take (length c) ?T)"
    by (rule strip_unterminated_step)
  then show ?case by simp
next
  case (unterminated c start)
  let ?T = "c @ OSC_PROGRESS_PREFIX @ b"
  have "occurs_at OSC_PROGRESS_PREFIX ([] @ OSC_PROGRESS_PREFIX @ b) (length ([] :: jsstring))"
    by (rule occurs_at_here)
  then have "occurs_at OSC_PROGRESS_PREFIX (OSC_PROGRESS_PREFIX @ b) 0" by simp
  then have i: "indexOf ?T OSC_PROGRESS_PREFIX 0 = Some start"
    using unterminated(1) by (subst indexOf_prefix_append) simp_all
  from unterminated(1) have "occurs_at OSC_PROGRESS_PREFIX c start" by (rule indexOf_SomeD)
  from occurs_at_length[OF this] have len: "start \<le> length c" by simp
  have "\<forall>k j. start + 6 \<le> j \<longrightarrow> \<not> occurs_at (term_chars k) ?T j"
    using unterminated(2) by (simp add: term_in_front_iff[OF assms])
  with i have "stripOscProgress ?T = stripOscProgress (take start ?T)"
    by (rule strip_unterminated_step)
  also have "take start ?T = take start c" using len by simp
  also have "stripOscProgress (take start c) = stripOscProgress c"
    using unterminated(1,2) by (rule strip_unterminated_step[symmetric])
  finally show ?case .
next
  case (cut c start e k)
  let ?T = "c @ OSC_PROGRESS_PREFIX @ b"
  have "occurs_at OSC_PROGRESS_PREFIX ([] @ OSC_PROGRESS_PREFIX @ b) (length ([] :: jsstring))"
    by (rule occurs_at_here)
  then have "occurs_at OSC_PROGRESS_PREFIX (OSC_PROGRESS_PREFIX @ b) 0" by simp
  then have i: "indexOf ?T OSC_PROGRESS_PREFIX 0 = Some start"
    using cut(1) by (subst indexOf_prefix_append) simp_all
  from cut(1) have "occurs_at OSC_PROGRESS_PREFIX c start" by (rule indexOf_SomeD)
  from occurs_at_length[OF this] have len: "start \<le> length c" by simp
  from first_end_bounds[OF cut(2)] have e: "e \<le> length c" by simp
  have "first_end ?T (start + 6) e k"
    using cut(2) unfolding first_end_def by (simp add: term_in_front_iff[OF assms])
  with i have "stripOscProgress ?T = stripOscProgress (take start ?T @ drop e ?T)"
    by (rule strip_cut_step)
  also have "take start ?T @ drop e ?T = (take start c @ drop e c) @ OSC_PROGRESS_PREFIX @ b"
    using len e by simp
  also have "stripOscProgress \<dots> = stripOscProgress (take start c @ drop e c)"
    by (rule cut(3))
  also have "\<dots> = stripOscProgress c"
    using cut(1,2) by (rule strip_cut_step[symmetric])
  finally show ?case .
qed

lemma take_before_first:
  assumes "indexOf t OSC_PROGRESS_PREFIX 0 = Some start"
  shows "indexOf (take start t) OSC_PROGRESS_PREFIX 0 = None"
proof -
  from assms have first: "\<forall>i < start. \<not> occurs_at OSC_PROGRESS_PREFIX t i"
    and "occurs_at OSC_PROGRESS_PREFIX t start"
    using indexOf_Some[of 0 t OSC_PROGRESS_PREFIX start] by simp_all
  from occurs_at_length[OF this(2)] have len: "start \<le> length t" by simp
  have "\<not> occurs_at OSC_PROGRESS_PREFIX (take start t) i" for i
  proof
    assume o: "occurs_at OSC_PROGRESS_PREFIX (take start t) i"
    from occurs_at_length[OF o] len have i: "i + length OSC_PROGRESS_PREFIX \<le> length (take start t)"
      "i < start" by simp_all
    from o i(1) have "occurs_at OSC_PROGRESS_PREFIX (take start t @ drop start t) i"
      by (simp only: occurs_at_append_iff)
    with first i(2) show False by simp
  qed
  then show ?thesis by (subst indexOf_None) simp_all
qed

subsection \<open>Reaching a frame\<close>

lemma find_reaches:
  assumes p: "occurs_at OSC_PROGRESS_PREFIX t p" and fe: "first_end t (p + 6) e k"
  shows "s \<le> p \<Longrightarrow>
    \<forall>i. s \<le> i \<and> i < p \<and> occurs_at OSC_PROGRESS_PREFIX t i \<longrightarrow>
       (\<exists>k' j. i + 6 \<le> j \<and> occurs_at (term_chars k') t j \<and> j + length (term_chars k') \<le> p) \<Longrightarrow>
    \<exists>ms. findFrom t s = ms @ \<lparr>seq_start = p, seq_end = e, raw = slice_str t p e,
                               seq_terminator = k\<rparr> # findFrom t e
       \<and> (\<forall>m\<in>set ms. seq_end m \<le> p)"
proof (induction s rule: find_induct[of t])
  case (finished s)
  from occurs_at_hd(1)[OF p] have "p < length t" by simp
  with finished show ?case by simp
next
  case (absent s)
  from absent(2) have "\<forall>i\<ge>min s (length t). \<not> occurs_at OSC_PROGRESS_PREFIX t i"
    using indexOf_None[of "min s (length t)" t OSC_PROGRESS_PREFIX] indexOf_clamp[of t _ s]
    by simp
  with p absent(3) show ?case by auto
next
  case (skip s start)
  from skip(2) skip(1) have st: "s \<le> start" "occurs_at OSC_PROGRESS_PREFIX t start"
    "\<forall>i. s \<le> i \<and> i < start \<longrightarrow> \<not> occurs_at OSC_PROGRESS_PREFIX t i"
    using indexOf_Some[of s t OSC_PROGRESS_PREFIX start] by simp_all
  from st(3) p skip(5) have "start \<le> p" by (meson not_le_imp_less)
  show ?case
  proof (cases "start = p")
    case True
    with first_end_occurs[OF fe] skip(3) show ?thesis by blast
  next
    case False
    with \<open>start \<le> p\<close> st skip(6) skip(3) show ?thesis by (metis le_neq_implies_less)
  qed
next
  case (found s start e' k')
  from found(2) found(1) have st: "s \<le> start" "occurs_at OSC_PROGRESS_PREFIX t start"
    "\<forall>i. s \<le> i \<and> i < start \<longrightarrow> \<not> occurs_at OSC_PROGRESS_PREFIX t i"
    using indexOf_Some[of s t OSC_PROGRESS_PREFIX start] by simp_all
  from st(3) p found(5) have "start \<le> p" by (meson not_le_imp_less)
  note step = find_match[OF found(1,2,3)]
  show ?case
  proof (cases "start = p")
    case True
    with found(3) fe have "e' = e" "k' = k"
      by (auto dest: first_end_unique first_end_kind_unique)
    with step True show ?thesis by (intro exI[of _ "[]"]) simp
  next
    case False
    with \<open>start \<le> p\<close> have "start < p" by simp
    with st found(6) obtain k'' j where j: "start + 6 \<le> j" "occurs_at (term_chars k'') t j"
      "j + length (term_chars k'') \<le> p" by blast
    from found(3) j(1,2) have "e' \<le> j + length (term_chars k'')"
      unfolding first_end_def by blast
    with j(3) have e'p: "e' \<le> p" by simp
    from first_end_bounds[OF found(3)] st(1) have "s \<le> e'" by simp
    with found(6) have "\<forall>i. e' \<le> i \<and> i < p \<and> occurs_at OSC_PROGRESS_PREFIX t i \<longrightarrow>
       (\<exists>k' j. i + 6 \<le> j \<and> occurs_at (term_chars k') t j \<and> j + length (term_chars k') \<le> p)"
      by (meson le_trans)
    from found(4)[OF e'p this] obtain ms where
      ms: "findFrom t e' = ms @ \<lparr>seq_start = p, seq_end = e, raw = slice_str t p e,
                               seq_terminator = k\<rparr> # findFrom t e"
      "\<forall>m\<in>set ms. seq_end m \<le> p" by blast
    let ?m = "\<lparr>seq_start = start, seq_end = e', raw = slice_str t start e', seq_terminator = k'\<rparr>"
    from step ms e'p show ?thesis by (intro exI[of _ "?m # ms"]) simp
  qed
qed

subsection \<open>Removing single code units\<close>

lemma replaceAll_single: "replaceAll t [c] [] = filter (\<lambda>x. x \<noteq> c) t"
  by (induction t) auto

lemma replaceAll_absent:
  "pat \<noteq> [] \<Longrightarrow> hd pat \<notin> set t \<Longrightarrow> replaceAll t pat rep = t"
proof (induction t)
  case Nil
  then show ?case by simp
next
  case (Cons x xs)
  from Cons.prems have "\<not> prefix pat (x # xs)"
    by (cases pat) auto
  with Cons show ?case by simp
qed

lemma concat_split: "concat (split t [c]) = filter (\<lambda>x. x \<noteq> c) t"
  by (induction t) (auto split: list.splits)

lemma join_Nil: "join ps [] = concat ps"
  by (induction ps "[] :: 'a list" rule: join.induct) auto

lemma split_join_single: "join (split t [c]) [] = filter (\<lambda>x. x \<noteq> c) t"
  by (simp add: join_Nil concat_split)

subsection \<open>\<open>trim\<close>\<close>

lemma set_trim: "set (trim s) \<subseteq> set s"
proof -
  have "x \<in> set s" if "x \<in> set (trim s)" for x
  proof -
    from that have "x \<in> set (dropWhile isWhiteSpace (rev (dropWhile isWhiteSpace s)))"
      by (simp add: trim_def)
    then have "x \<in> set (rev (dropWhile isWhiteSpace s))" by (rule set_dropWhileD)
    then have "x \<in> set (dropWhile isWhiteSpace s)" by simp
    then show ?thesis by (rule set_dropWhileD)
  qed
  then show ?thesis by blast
qed

lemma dropWhile_unchanged: "xs = [] \<or> \<not> P (hd xs) \<Longrightarrow> dropWhile P xs = xs"
  by (cases xs) auto

lemma trim_trim: "trim (trim s) = trim s"
proof -
  define a where "a = dropWhile isWhiteSpace s"
  define d where "d = dropWhile isWhiteSpace (rev a)"
  have t: "trim s = rev d" by (simp add: trim_def a_def d_def)
  have a: "a = [] \<or> \<not> isWhiteSpace (hd a)"
    unfolding a_def by (metis hd_dropWhile)
  have d: "d = [] \<or> \<not> isWhiteSpace (hd d)"
    unfolding d_def by (metis hd_dropWhile)
  have "rev d = [] \<or> \<not> isWhiteSpace (hd (rev d))"
  proof (cases "d = []")
    case True
    then show ?thesis by simp
  next
    case False
    have "rev a = takeWhile isWhiteSpace (rev a) @ d"
      by (simp add: d_def)
    with False have "last (rev a) = last d" by (metis last_appendR)
    moreover from False have "a \<noteq> []" by (auto simp: d_def)
    ultimately have "hd a = last d" by (simp add: last_rev)
    with a \<open>a \<noteq> []\<close> False show ?thesis by (simp add: hd_rev)
  qed
  then have 1: "dropWhile isWhiteSpace (rev d) = rev d" by (rule dropWhile_unchanged)
  from d have 2: "dropWhile isWhiteSpace d = d" by (rule dropWhile_unchanged)
  show ?thesis unfolding t by (simp add: trim_def 1 2)
qed

lemma filter_unchanged: "\<forall>x\<in>set xs. P x \<Longrightarrow> filter P xs = xs"
  by (induction xs) auto

subsection \<open>\<open>sanitizeLabel\<close>\<close>

text \<open>What \<open>sanitizeLabel\<close> computes, with the single-unit removals read as filters.\<close>

lemma sanitizeLabel_filter:
  "sanitizeLabel l =
     trim (filter (\<lambda>x. x \<noteq> 0x5d) (filter (\<lambda>x. x \<noteq> 0x9c) (filter (\<lambda>x. x \<noteq> 0x07)
       (filter (\<lambda>x. x \<noteq> 0x1b) (replaceAll l OSC_PROGRESS_ST [])))))"
  by (simp add: sanitizeLabel_def Let_def replaceAll_single split_join_single
      OSC_PROGRESS_BEL_def OSC_PROGRESS_C1_ST_def)

lemma sanitizeLabel_set:
  "0x1b \<notin> set (sanitizeLabel l)" "0x07 \<notin> set (sanitizeLabel l)"
  "0x9c \<notin> set (sanitizeLabel l)" "0x5d \<notin> set (sanitizeLabel l)"
  using set_trim unfolding sanitizeLabel_filter by fastforce+

lemma sanitizeLabel_fixed:
  assumes "0x1b \<notin> set l" "0x07 \<notin> set l" "0x9c \<notin> set l" "0x5d \<notin> set l"
  shows "sanitizeLabel l = trim l"
proof -
  have "replaceAll l OSC_PROGRESS_ST [] = l"
    by (rule replaceAll_absent) (use assms in \<open>simp_all add: OSC_PROGRESS_ST_def\<close>)
  moreover have "filter (\<lambda>x. x \<noteq> c) l = l" if "c \<notin> set l" for c :: jschar
    by (rule filter_unchanged) (use that in auto)
  ultimately show ?thesis
    unfolding sanitizeLabel_filter using assms by simp
qed

lemma sanitizeLabel_idem: "sanitizeLabel (sanitizeLabel l) = sanitizeLabel l"
proof -
  define u where "u = filter (\<lambda>x. x \<noteq> 0x5d) (filter (\<lambda>x. x \<noteq> 0x9c) (filter (\<lambda>x. x \<noteq> 0x07)
       (filter (\<lambda>x. x \<noteq> (0x1b::jschar)) (replaceAll l OSC_PROGRESS_ST []))))"
  have s: "sanitizeLabel l = trim u" by (simp add: sanitizeLabel_filter u_def)
  have "sanitizeLabel (sanitizeLabel l) = trim (sanitizeLabel l)"
    by (rule sanitizeLabel_fixed) (rule sanitizeLabel_set)+
  then show ?thesis by (simp add: s trim_trim)
qed

subsection \<open>The frames of the emitter\<close>

lemma digit_unit:
  assumes "d < 10"
  shows "(of_nat (48 + d) :: jschar) \<in> {48, 49, 50, 51, 52, 53, 54, 55, 56, 57}"
proof -
  from assms have "d \<in> {0, 1, 2, 3, 4, 5, 6, 7, 8, 9}" by auto
  then show ?thesis by auto
qed

lemma decimal_units: "set (decimal n) \<subseteq> {48, 49, 50, 51, 52, 53, 54, 55, 56, 57}"
proof (induction n rule: decimal.induct)
  case (1 n)
  show ?case
  proof (cases "n < 10")
    case True
    with digit_unit[of n] show ?thesis by (subst decimal.simps) simp
  next
    case False
    have "n mod 10 < 10" by simp
    from digit_unit[OF this] 1[OF False] False show ?thesis
      by (subst decimal.simps) simp
  qed
qed

lemma frame_payload_body:
  assumes "sanitizeLabel l = l"
  shows "frame_body (frame_payload l st percent)"
proof -
  from sanitizeLabel_set[of l] assms
  have l: "0x1b \<notin> set l" "0x07 \<notin> set l" "0x9c \<notin> set l" by simp_all
  have d: "0x1b \<notin> set (decimal n)" "0x07 \<notin> set (decimal n)" "0x9c \<notin> set (decimal n)" for n
    using decimal_units[of n] by auto
  show ?thesis using l d
    by (cases percent) (simp_all add: frame_body_def frame_payload_def js_def)
qed

lemma osc_frame_shape:
  "osc_frame l (resolveTerminator tk) st percent =
     OSC_PROGRESS_PREFIX @ frame_payload l st percent @ term_chars (emitted_kind tk)"
  by (cases percent)
    (simp_all add: osc_frame_def frame_payload_def resolveTerminator_def emitted_kind_def
      term_chars_cases)

subsection \<open>The capability decision, case by case\<close>

lemma supports_not_tty: "supportsOscProgress h env_arg (Some False) options = False"
  by (simp add: supportsOscProgress_def)

lemma supports_tty:
  "supportsOscProgress h (Some env0) (Some True) options =
     (if truthy (disabled options) then False
      else if truthy (force options) then True
      else if env_flag env0 (disableEnvVar options) then False
      else if env_flag env0 (forceEnvVar options) then True
      else includes_str
             (toLowerCase h (case env0 (js ''TERM_PROGRAM'') of None \<Rightarrow> [] | Some v \<Rightarrow> v))
             (js ''ghostty'')
           \<or> includes_str
             (toLowerCase h (case env0 (js ''TERM_PROGRAM'') of None \<Rightarrow> [] | Some v \<Rightarrow> v))
             (js ''wezterm'')
           \<or> truthy_str (env0 (js ''WT_SESSION'')))"
  by (simp add: supportsOscProgress_def Let_def)

subsection \<open>The emitter\<close>

lemma semicolon_not_digit: "0x3b \<notin> set (decimal n)"
  using decimal_units[of n] by auto

lemma takeWhile_append_stop:
  "\<forall>x\<in>set xs. P x \<Longrightarrow> \<not> P y \<Longrightarrow> takeWhile P (xs @ y # ys) = xs"
  by (induction xs) auto

lemma dropWhile_append_stop:
  "\<forall>x\<in>set xs. P x \<Longrightarrow> \<not> P y \<Longrightarrow> dropWhile P (xs @ y # ys) = y # ys"
  by (induction xs) auto

lemma percent_field_frame:
  "percent_field (osc_frame l e st (Some p)) = decimal (nat (clampRound p))"
  "percent_field (osc_frame l e st None) = []"
  "state_field (osc_frame l e st percent) = decimal st"
proof -
  have d: "\<forall>x\<in>set (decimal n). x \<noteq> 0x3b" for n using semicolon_not_digit[of n] by auto
  have 1: "dropWhile (\<lambda>c. c \<noteq> 0x3b) (decimal st @ 0x3b # r) = 0x3b # r" for r
    using d[of st] by (intro dropWhile_append_stop) simp_all
  have 2: "takeWhile (\<lambda>c. c \<noteq> 0x3b) (decimal n @ 0x3b # r) = decimal n" for n r
    using d[of n] by (intro takeWhile_append_stop) simp_all
  show "percent_field (osc_frame l e st (Some p)) = decimal (nat (clampRound p))"
    by (simp add: percent_field_def osc_frame_def js_def 1 2)
  show "percent_field (osc_frame l e st None) = []"
    by (simp add: percent_field_def osc_frame_def js_def 1)
  show "state_field (osc_frame l e st percent) = decimal st"
    by (cases percent) (simp_all add: state_field_def osc_frame_def js_def 2)
qed

lemma decimal_short: "n < 100 \<Longrightarrow> length (decimal n) \<le> 2"
proof -
  assume n: "n < 100"
  show ?thesis
  proof (cases "n < 10")
    case True
    then show ?thesis by (subst decimal.simps) simp
  next
    case False
    from n have "n div 10 < 10" by simp
    then have "decimal (n div 10) = [of_nat (48 + n div 10)]" by (subst decimal.simps) simp
    with False show ?thesis by (subst decimal.simps) simp
  qed
qed

lemma decimal_not_100: "n < 100 \<Longrightarrow> decimal n \<noteq> js ''100''"
  using decimal_short[of n] by (auto simp: js_def)

lemma Math_round_mono: "x \<le> y \<Longrightarrow> Math_round x \<le> Math_round y"
  by (simp add: Math_round_def floor_mono)

lemma Math_round_int [simp]: "Math_round (real_of_int n) = n"
  by (simp add: Math_round_def)

lemma clampRound_le_99: "p \<le> 99 \<Longrightarrow> clampRound p \<le> 99"
proof -
  assume "p \<le> 99"
  then have "Math_round p \<le> Math_round 99" by (rule Math_round_mono)
  also have "Math_round 99 = 99" using Math_round_int[of 99] by simp
  finally show ?thesis by (simp add: clampRound_def)
qed

lemma clampRound_nonneg: "0 \<le> clampRound p"
  by (simp add: clampRound_def)

lemma clampRound_in_range:
  assumes "0 \<le> p" "p \<le> 99"
  shows "clampRound p = Math_round p"
proof -
  from assms(1) have "Math_round 0 \<le> Math_round p" by (rule Math_round_mono)
  moreover have "Math_round 0 = 0" using Math_round_int[of 0] by simp
  moreover from assms(2) have "Math_round p \<le> Math_round 99" by (rule Math_round_mono)
  moreover have "Math_round 99 = 99" using Math_round_int[of 99] by simp
  ultimately show ?thesis by (simp add: clampRound_def)
qed

subsubsection \<open>Rounding to a double\<close>

text \<open>The same equation with the bound \<open>2^1024\<close> as \<open>(2^32)^32\<close>, which evaluates faster.\<close>

lemma to_double_code [code]:
  "to_double x =
     (if x = 0 then Num 0
      else let e = max (binary_exponent x) (- 1022);
               ulp = 2 powi (e - 52);
               y = of_int (round_half_even (x / ulp)) * ulp
           in if (2 ^ 32) ^ 32 \<le> \<bar>y\<bar> then (if 0 < x then PosInf else NegInf) else Num y)"
proof -
  have "(2::real) powi 1024 = (2 ^ 32) ^ 32" by (simp flip: power_mult)
  then show ?thesis by (simp add: to_double_def)
qed

lemma round_half_even_nonneg: "0 \<le> y \<Longrightarrow> 0 \<le> round_half_even y"
  by (simp add: round_half_even_def Let_def)

lemma to_double_not_NaN [simp]: "to_double x \<noteq> NaN"
  by (simp add: to_double_def Let_def)

lemma to_double_nonneg:
  assumes "0 \<le> x"
  shows "to_double x = PosInf \<or> (\<exists>y. to_double x = Num y \<and> 0 \<le> y)"
proof (cases "x = 0")
  case True
  then show ?thesis by (simp add: to_double_def)
next
  case False
  define ulp :: real where "ulp = 2 powi (max (binary_exponent x) (- 1022) - 52)"
  have u: "0 < ulp" by (simp add: ulp_def)
  with assms have "0 \<le> x / ulp" by simp
  then have "0 \<le> round_half_even (x / ulp)" by (rule round_half_even_nonneg)
  with u have "0 \<le> real_of_int (round_half_even (x / ulp)) * ulp" by simp
  with False assms show ?thesis by (simp add: to_double_def Let_def ulp_def)
qed

lemma Math_min_99_cases:
  "Math_min_n (Num 99) y = NaN \<or> Math_min_n (Num 99) y = NegInf
   \<or> (\<exists>x. Math_min_n (Num 99) y = Num x \<and> x \<le> 99)"
  by (cases y) simp_all

lemma ramp_percent_cases:
  "ramp_percent tgt t0 now = NaN \<or> ramp_percent tgt t0 now = NegInf
   \<or> (\<exists>x. ramp_percent tgt t0 now = Num x \<and> x \<le> 99)"
  unfolding ramp_percent_def by (rule Math_min_99_cases)

lemma target_floor:
  assumes "Math_max_n t (Num 1000) \<noteq> NaN" "Math_max_n t (Num 1000) \<noteq> PosInf"
  shows "\<exists>T. Math_max_n t (Num 1000) = Num T \<and> 1000 \<le> T"
  using assms by (cases t) simp_all

lemma ramp_percent_forward:
  assumes "t0 \<le> now" "1000 \<le> T"
  shows "\<exists>x. ramp_percent (Num T) t0 now = Num x \<and> 0 \<le> x \<and> x \<le> 99"
proof -
  have T: "0 < T" "T \<noteq> 0" using assms(2) by simp_all
  from assms(1) have "0 \<le> real_of_int now - real_of_int t0" by simp
  from to_double_nonneg[OF this]
  have "number_div (number_sub (Num (of_int now)) (Num (of_int t0))) (Num T) = PosInf
      \<or> (\<exists>b. number_div (number_sub (Num (of_int now)) (Num (of_int t0))) (Num T) = Num b
              \<and> 0 \<le> b)"
  proof
    assume "to_double (real_of_int now - real_of_int t0) = PosInf"
    then show ?thesis using T by simp
  next
    assume "\<exists>y. to_double (real_of_int now - real_of_int t0) = Num y \<and> 0 \<le> y"
    then obtain a where a: "to_double (real_of_int now - real_of_int t0) = Num a" "0 \<le> a"
      by blast
    from a(2) T have "0 \<le> a / T" by simp
    from to_double_nonneg[OF this] a(1) T show ?thesis by simp
  qed
  then have "number_mul (number_div (number_sub (Num (of_int now)) (Num (of_int t0))) (Num T))
        (Num 100) = PosInf
      \<or> (\<exists>c. number_mul (number_div (number_sub (Num (of_int now)) (Num (of_int t0))) (Num T))
        (Num 100) = Num c \<and> 0 \<le> c)"
  proof
    assume "number_div (number_sub (Num (of_int now)) (Num (of_int t0))) (Num T) = PosInf"
    then show ?thesis by simp
  next
    assume "\<exists>b. number_div (number_sub (Num (of_int now)) (Num (of_int t0))) (Num T) = Num b
              \<and> 0 \<le> b"
    then obtain b where b: "number_div (number_sub (Num (of_int now)) (Num (of_int t0))) (Num T)
       = Num b" "0 \<le> b" by blast
    from b(2) have "0 \<le> b * 100" by simp
    from to_double_nonneg[OF this] b(1) show ?thesis by simp
  qed
  then show ?thesis unfolding ramp_percent_def by auto
qed

subsubsection \<open>Frames of any percent\<close>

lemma send_text_finite:
  "send_text l e st (map_option Num percent) = osc_frame l e st percent"
proof (cases percent)
  case None
  then show ?thesis by (simp add: send_text_def osc_frame_def)
next
  case (Some x)
  have "nat \<lfloor>max 0 (min 100 (real_of_int (Math_round x)))\<rfloor> = nat (clampRound x)"
    by (simp add: clampRound_def max_def min_def)
  with Some show ?thesis
    by (simp add: send_text_def osc_frame_def Math_round_n_def Let_def)
qed

lemma send_text_Num: "send_text l e st (Some (Num x)) = osc_frame l e st (Some x)"
  using send_text_finite[of l e st "Some x"] by simp

lemma send_text_zero:
  "send_text l e st (Some (Num 0)) = OSC_PROGRESS_PREFIX @ decimal st @ js '';0;'' @ l @ e"
  by (simp add: send_text_def Math_round_n_def Let_def Math_round_def decimal.simps js_def)

lemma decimal_0: "decimal 0 = js ''0''" by (simp add: decimal.simps js_def)

lemma send_text_stop:
  "send_text l e 0 (Some (Num 0)) = OSC_PROGRESS_PREFIX @ js ''0;0;'' @ l @ e"
  by (simp add: send_text_zero decimal_0 js_def)

lemma fields_send_text:
  "state_field (send_text l e st percent) = decimal st"
  "percent_field (send_text l e st (Some p)) =
     (case p of NaN \<Rightarrow> js ''NaN'' | PosInf \<Rightarrow> js ''100'' | NegInf \<Rightarrow> js ''0''
      | Num x \<Rightarrow> decimal (nat (clampRound x)))"
proof -
  have d: "\<forall>x\<in>set (decimal n). x \<noteq> 0x3b" for n using semicolon_not_digit[of n] by auto
  have 1: "dropWhile (\<lambda>c. c \<noteq> 0x3b) (decimal st @ 0x3b # r) = 0x3b # r" for r
    using d[of st] by (intro dropWhile_append_stop) simp_all
  have 2: "takeWhile (\<lambda>c. c \<noteq> 0x3b) (decimal n @ 0x3b # r) = decimal n" for n r
    using d[of n] by (intro takeWhile_append_stop) simp_all
  show "state_field (send_text l e st percent) = decimal st"
    by (cases percent) (simp_all add: state_field_def send_text_def js_def 2 Let_def)
  show "percent_field (send_text l e st (Some p)) =
     (case p of NaN \<Rightarrow> js ''NaN'' | PosInf \<Rightarrow> js ''100'' | NegInf \<Rightarrow> js ''0''
      | Num x \<Rightarrow> decimal (nat (clampRound x)))"
  proof (cases p)
    case NaN
    then show ?thesis
      by (simp add: percent_field_def send_text_def js_def 1 Math_round_n_def)
  next
    case PosInf
    have "percent_field (send_text l e st (Some PosInf)) = decimal 100"
      by (simp add: percent_field_def send_text_def js_def 1 2 Math_round_n_def)
    with PosInf show ?thesis by (simp add: decimal.simps js_def)
  next
    case NegInf
    have "percent_field (send_text l e st (Some NegInf)) = decimal 0"
      by (simp add: percent_field_def send_text_def js_def 1 2 Math_round_n_def)
    with NegInf show ?thesis by (simp add: decimal_0)
  next
    case (Num x)
    then show ?thesis by (simp add: send_text_Num percent_field_frame)
  qed
qed

lemma Math_round_nearest:
  "real_of_int (Math_round x) - 1 / 2 \<le> x" "x < real_of_int (Math_round x) + 1 / 2"
  unfolding Math_round_def by linarith+

lemma ramp_frame_not_100:
  "percent_field (send_text l e st (Some (ramp_percent tgt t0 now))) \<noteq> js ''100''"
proof -
  from ramp_percent_cases[of tgt t0 now] show ?thesis
  proof (elim disjE exE conjE)
    assume "ramp_percent tgt t0 now = NaN"
    then show ?thesis by (simp add: fields_send_text js_def)
  next
    assume "ramp_percent tgt t0 now = NegInf"
    then show ?thesis by (simp add: fields_send_text js_def)
  next
    fix x assume x: "ramp_percent tgt t0 now = Num x" "x \<le> 99"
    from clampRound_le_99[OF x(2)] clampRound_nonneg[of x]
    have "nat (clampRound x) < 100" by simp
    with x(1) show ?thesis by (simp add: fields_send_text decimal_not_100)
  qed
qed

lemma zero_frame_not_100:
  "percent_field (send_text l e st (Some (Num 0))) \<noteq> js ''100''"
  by (simp add: fields_send_text clampRound_def Math_round_def decimal_0 js_def)

subsubsection \<open>Determinate sessions\<close>

lemma determinate_start:
  assumes "supportsOscProgress h (env options) (isTty options) options"
    and "indeterminate options \<noteq> Some True"
  shows "determinate_session
           (sanitizeLabel (case label options of None \<Rightarrow> default_label | Some l \<Rightarrow> l))
           (resolveTerminator (terminator options))
           (case state options of None \<Rightarrow> 1 | Some s \<Rightarrow> s)
           (Math_max_n (case targetMs options of None \<Rightarrow> Num (10 * 60000) | Some t \<Rightarrow> t)
              (Num 1000))
           t0 (startOscProgress h t0 options)"
    and "writes (startOscProgress h t0 options) =
           [send_text (sanitizeLabel (case label options of None \<Rightarrow> default_label | Some l \<Rightarrow> l))
              (resolveTerminator (terminator options))
              (case state options of None \<Rightarrow> 1 | Some s \<Rightarrow> s) (Some (Num 0))]"
    and "timer_live (startOscProgress h t0 options)"
proof -
  have "indeterminate options = None \<or> indeterminate options = Some False"
    using assms(2) by (cases "indeterminate options") auto
  then show "determinate_session
           (sanitizeLabel (case label options of None \<Rightarrow> default_label | Some l \<Rightarrow> l))
           (resolveTerminator (terminator options))
           (case state options of None \<Rightarrow> 1 | Some s \<Rightarrow> s)
           (Math_max_n (case targetMs options of None \<Rightarrow> Num (10 * 60000) | Some t \<Rightarrow> t)
              (Num 1000))
           t0 (startOscProgress h t0 options)"
    and "writes (startOscProgress h t0 options) =
           [send_text (sanitizeLabel (case label options of None \<Rightarrow> default_label | Some l \<Rightarrow> l))
              (resolveTerminator (terminator options))
              (case state options of None \<Rightarrow> 1 | Some s \<Rightarrow> s) (Some (Num 0))]"
    and "timer_live (startOscProgress h t0 options)"
    using assms(1)
    by (auto simp: startOscProgress_def Let_def send_def determinate_session_def)
qed

lemma run_cleared:
  assumes "determinate_session l e st tgt t0 s" "stopped s"
  shows "run evs s = s"
proof (induction evs)
  case Nil
  show ?case by simp
next
  case (Cons ev evs)
  from assms have "tick now s = s" for now by (simp add: tick_def determinate_session_def)
  moreover from assms have "stop s = s" by (simp add: stop_def determinate_session_def)
  ultimately show ?case using Cons by (cases ev) simp_all
qed

lemma run_live:
  assumes "determinate_session l e st tgt t0 s" "timer_live s"
  shows "determinate_session l e st tgt t0 (run evs s)
     \<and> writes (run evs s) = writes s
         @ map (\<lambda>now. send_text l e st (Some (ramp_percent tgt t0 now))) (live_ticks evs)
         @ (if Stop \<in> set evs then [send_text l e 0 (Some (Num 0))] else [])
     \<and> timer_live (run evs s) = (Stop \<notin> set evs)"
  using assms
proof (induction evs arbitrary: s)
  case Nil
  then show ?case by simp
next
  case (Cons ev evs)
  show ?case
  proof (cases ev)
    case (Tick now)
    from Cons.prems have t: "tick now s
        = s\<lparr>writes := writes s @ [send_text l e st (Some (ramp_percent tgt t0 now))]\<rparr>"
      by (simp add: tick_def Let_def send_def determinate_session_def ramp_percent_def)
    have "determinate_session l e st tgt t0 (tick now s)" "timer_live (tick now s)"
      using Cons.prems unfolding t by (simp_all add: determinate_session_def)
    from Cons.IH[OF this] Tick show ?thesis by (simp add: t)
  next
    case Stop
    from Cons.prems have t: "stop s
        = s\<lparr>stopped := True, timer_live := False,
            writes := writes s @ [send_text l e 0 (Some (Num 0))]\<rparr>"
      by (simp add: stop_def send_def determinate_session_def)
    have d: "determinate_session l e st tgt t0 (stop s)" "stopped (stop s)"
      using Cons.prems unfolding t by (simp_all add: determinate_session_def)
    from run_cleared[OF this] have "run evs (stop s) = stop s" .
    with Stop d show ?thesis by (simp add: t)
  qed
qed

lemma stop_idempotent_determinate:
  "stopFn s = StopDeterminate \<Longrightarrow> stop (stop s) = stop s"
  by (simp add: stop_def send_def)

subsection \<open>The controller\<close>






section \<open>The claims\<close>

text \<open>
  C1 at its failing input. In indeterminate mode the stop function has no guard: each
  call writes the state-0/percent-0 frame again, so two calls leave three writes. (In
  determinate mode a second call changes nothing: \<open>stop_idempotent_determinate\<close>.)
\<close>

theorem stop_twice_indeterminate:
  "supportsOscProgress node (env waiting_options) (isTty waiting_options) waiting_options
   \<and> writes (startOscProgress node 0 waiting_options) =
       [OSC_PROGRESS_PREFIX @ js ''3;;Waiting'' @ OSC_PROGRESS_ST]
   \<and> writes (run [Stop] (startOscProgress node 0 waiting_options)) =
       [OSC_PROGRESS_PREFIX @ js ''3;;Waiting'' @ OSC_PROGRESS_ST,
        OSC_PROGRESS_PREFIX @ js ''0;0;Waiting'' @ OSC_PROGRESS_ST]
   \<and> writes (run [Stop, Stop] (startOscProgress node 0 waiting_options)) =
       [OSC_PROGRESS_PREFIX @ js ''3;;Waiting'' @ OSC_PROGRESS_ST,
        OSC_PROGRESS_PREFIX @ js ''0;0;Waiting'' @ OSC_PROGRESS_ST,
        OSC_PROGRESS_PREFIX @ js ''0;0;Waiting'' @ OSC_PROGRESS_ST]"
  by code_simp

text \<open>
  C2, as amended. With \<open>WT_SESSION\<close> present, \<open>isTty\<close> true, neither \<open>disabled\<close> nor
  \<open>force\<close> set, no override variable matching, and \<open>TERM_PROGRAM\<close> containing neither
  \<open>ghostty\<close> nor \<open>wezterm\<close>, \<open>supportsOscProgress\<close> returns true exactly when the value of
  \<open>WT_SESSION\<close> is not the empty string.
\<close>

theorem supportsOscProgress_WT_SESSION:
  assumes "env0 (js ''WT_SESSION'') = Some v"
    and "\<not> truthy (disabled options)" "\<not> truthy (force options)"
    and "\<not> env_flag env0 (disableEnvVar options)" "\<not> env_flag env0 (forceEnvVar options)"
    and "\<not> includes_str
             (toLowerCase h (case env0 (js ''TERM_PROGRAM'') of None \<Rightarrow> [] | Some v \<Rightarrow> v))
             (js ''ghostty'')"
    and "\<not> includes_str
             (toLowerCase h (case env0 (js ''TERM_PROGRAM'') of None \<Rightarrow> [] | Some v \<Rightarrow> v))
             (js ''wezterm'')"
  shows "supportsOscProgress h (Some env0) (Some True) options = (v \<noteq> [])"
  using assms by (simp add: supports_tty truthy_str_def)

theorem supportsOscProgress_WT_SESSION_witness:
  "env_of [(js ''WT_SESSION'', js ''1'')] (js ''WT_SESSION'') = Some (js ''1'')
   \<and> js ''1'' \<noteq> []
   \<and> supportsOscProgress node (Some (env_of [(js ''WT_SESSION'', js ''1'')])) (Some True)
        no_options = True"
proof -
  let ?e = "env_of [(js ''WT_SESSION'', js ''1'')]"
  have v: "?e (js ''WT_SESSION'') = Some (js ''1'')" "js ''1'' \<noteq> []"
    by (simp_all add: env_of_def js_def)
  have t: "\<not> truthy (disabled no_options)" "\<not> truthy (force no_options)"
    "\<not> env_flag ?e (disableEnvVar no_options)" "\<not> env_flag ?e (forceEnvVar no_options)"
    by (simp_all add: truthy_def env_flag_def no_options_def)
  have a: "\<not> includes_str (toLowerCase node (case ?e (js ''TERM_PROGRAM'') of None \<Rightarrow> [] | Some v \<Rightarrow> v))
             (js ''ghostty'')"
    "\<not> includes_str (toLowerCase node (case ?e (js ''TERM_PROGRAM'') of None \<Rightarrow> [] | Some v \<Rightarrow> v))
             (js ''wezterm'')"
    by code_simp+
  from supportsOscProgress_WT_SESSION[OF v(1) t a] v show ?thesis by simp
qed

text \<open>
  C2 as stated fails: with \<open>WT_SESSION\<close> present and empty, and nothing else set, the
  answer is false.
\<close>

theorem supportsOscProgress_WT_SESSION_counterexample:
  "env_of [(js ''WT_SESSION'', [])] (js ''WT_SESSION'') = Some []
   \<and> supportsOscProgress node (Some (env_of [(js ''WT_SESSION'', [])])) (Some True) no_options
       = False"
  by code_simp

text \<open>
  C3. A text of well-terminated frames interleaved with plain text is stripped to the
  plain text, verbatim and in order; and where a prefix occurrence has no ST, BEL or C1 ST
  terminator anywhere after it, everything from that prefix to the end of the text goes:
  the result is what stripping the text before the prefix gives, and that text itself
  when it holds no prefix.
\<close>

theorem stripOscProgress_frames_and_unterminated:
  "((\<forall>(p, b, k)\<in>set segs. plain p \<and> frame_body b) \<and> plain tail
      \<longrightarrow> stripOscProgress (interleave segs tail) = concat (map fst segs) @ tail)
   \<and> ((\<forall>k j. length a + length OSC_PROGRESS_PREFIX \<le> j
              \<longrightarrow> \<not> occurs_at (term_chars k) (a @ OSC_PROGRESS_PREFIX @ r) j)
      \<longrightarrow> stripOscProgress (a @ OSC_PROGRESS_PREFIX @ r) = stripOscProgress a
        \<and> (\<not> includes_str a OSC_PROGRESS_PREFIX
             \<longrightarrow> stripOscProgress (a @ OSC_PROGRESS_PREFIX @ r) = a))"
proof (intro conjI impI)
  assume "(\<forall>(p, b, k)\<in>set segs. plain p \<and> frame_body b) \<and> plain tail"
  then have "stripOscProgress ([] @ interleave segs tail) = [] @ concat (map fst segs) @ tail"
    by (intro strip_interleave) (simp_all add: plain_def)
  then show "stripOscProgress (interleave segs tail) = concat (map fst segs) @ tail" by simp
next
  assume no: "\<forall>k j. length a + length OSC_PROGRESS_PREFIX \<le> j
              \<longrightarrow> \<not> occurs_at (term_chars k) (a @ OSC_PROGRESS_PREFIX @ r) j"
  have r: "\<forall>k j. \<not> occurs_at (term_chars k) r j"
  proof (intro allI notI)
    fix k j assume "occurs_at (term_chars k) r j"
    then have "occurs_at (term_chars k) ((a @ OSC_PROGRESS_PREFIX) @ r)
         (length (a @ OSC_PROGRESS_PREFIX) + j)"
      by (subst occurs_at_shift) simp_all
    with no show False by simp
  qed
  then show eq: "stripOscProgress (a @ OSC_PROGRESS_PREFIX @ r) = stripOscProgress a"
    by (rule strip_unterminated_prefix)
  assume "\<not> includes_str a OSC_PROGRESS_PREFIX"
  then have "stripOscProgress a = a" by (simp add: includes_str_def strip_none)
  with eq show "stripOscProgress (a @ OSC_PROGRESS_PREFIX @ r) = a" by simp
qed

theorem stripOscProgress_frames_and_unterminated_witness:
  "plain (js ''pre'') \<and> frame_body (js ''3;;Waiting'')
   \<and> plain (js ''mid'') \<and> frame_body (js ''1;5;Downloading'') \<and> plain (js ''post'')
   \<and> interleave mixed_segments (js ''post'') =
       js ''pre'' @ OSC_PROGRESS_PREFIX @ js ''3;;Waiting'' @ OSC_PROGRESS_ST @ js ''mid''
       @ OSC_PROGRESS_PREFIX @ js ''1;5;Downloading'' @ OSC_PROGRESS_BEL @ js ''post''
   \<and> stripOscProgress (interleave mixed_segments (js ''post'')) = js ''premidpost''
   \<and> indexOf (js ''pre'' @ OSC_PROGRESS_PREFIX @ js ''1;50;Xpost'') OSC_PROGRESS_ST 9 = None
   \<and> indexOf (js ''pre'' @ OSC_PROGRESS_PREFIX @ js ''1;50;Xpost'') OSC_PROGRESS_BEL 9 = None
   \<and> indexOf (js ''pre'' @ OSC_PROGRESS_PREFIX @ js ''1;50;Xpost'') OSC_PROGRESS_C1_ST 9 = None
   \<and> includes_str (js ''pre'') OSC_PROGRESS_PREFIX = False
   \<and> stripOscProgress (js ''pre'' @ OSC_PROGRESS_PREFIX @ js ''1;50;Xpost'') = js ''pre''"
proof -
  let ?u = "js ''pre'' @ OSC_PROGRESS_PREFIX @ js ''1;50;Xpost''"
  note th = stripOscProgress_frames_and_unterminated[of mixed_segments "js ''post''"
      "js ''pre''" "js ''1;50;Xpost''"]
  have pl: "plain (js ''pre'')" "frame_body (js ''3;;Waiting'')" "plain (js ''mid'')"
    "frame_body (js ''1;5;Downloading'')" "plain (js ''post'')"
    by (simp_all add: plain_def frame_body_def js_def)
  then have h1: "(\<forall>(p, b, k)\<in>set mixed_segments. plain p \<and> frame_body b) \<and> plain (js ''post'')"
    by (simp add: mixed_segments_def)
  have il: "interleave mixed_segments (js ''post'') =
       js ''pre'' @ OSC_PROGRESS_PREFIX @ js ''3;;Waiting'' @ OSC_PROGRESS_ST @ js ''mid''
       @ OSC_PROGRESS_PREFIX @ js ''1;5;Downloading'' @ OSC_PROGRESS_BEL @ js ''post''"
    by (simp add: mixed_segments_def term_chars_cases)
  from th h1 have "stripOscProgress (interleave mixed_segments (js ''post''))
      = concat (map fst mixed_segments) @ js ''post''" by blast
  then have s1: "stripOscProgress (interleave mixed_segments (js ''post'')) = js ''premidpost''"
    by (simp add: mixed_segments_def js_def)
  have n: "indexOf ?u OSC_PROGRESS_ST 9 = None" "indexOf ?u OSC_PROGRESS_BEL 9 = None"
    "indexOf ?u OSC_PROGRESS_C1_ST 9 = None" by code_simp+
  have len: "9 \<le> length ?u" "length (js ''pre'') + length OSC_PROGRESS_PREFIX = 9"
    by (simp_all add: js_def)
  have "indexOf ?u (term_chars k) 9 = None" for k
    using n by (cases k) (simp_all add: term_chars_cases)
  then have h2: "\<forall>k j. length (js ''pre'') + length OSC_PROGRESS_PREFIX \<le> j
              \<longrightarrow> \<not> occurs_at (term_chars k) ?u j"
    unfolding len(2) using indexOf_None[OF len(1)] by blast
  have inc: "includes_str (js ''pre'') OSC_PROGRESS_PREFIX = False" by code_simp
  from th h2 inc have s2: "stripOscProgress ?u = js ''pre''" by blast
  from pl il s1 n inc s2 show ?thesis by simp
qed

text \<open>
  C4. For every text and every sequence \<open>findOscProgressSequences\<close> reports: it starts at
  an occurrence of the prefix, it ends where a terminator of the reported kind ends, that
  terminator starts at or after the end of the prefix, and no terminator of any kind (ST,
  BEL, C1 ST) that starts at or after the end of the prefix ends earlier, so the smallest
  end offset wins whatever the kind. A prefix occurrence with no terminator of any kind at
  or after its end is the start of no reported sequence.
\<close>

theorem findOscProgressSequences_earliest_terminator:
  "(\<forall>m\<in>set (findOscProgressSequences t).
       occurs_at OSC_PROGRESS_PREFIX t (seq_start m)
     \<and> seq_start m + length OSC_PROGRESS_PREFIX + length (term_chars (seq_terminator m))
         \<le> seq_end m
     \<and> occurs_at (term_chars (seq_terminator m)) t
         (seq_end m - length (term_chars (seq_terminator m)))
     \<and> (\<forall>k j. seq_start m + length OSC_PROGRESS_PREFIX \<le> j \<and> occurs_at (term_chars k) t j
            \<longrightarrow> seq_end m \<le> j + length (term_chars k)))
   \<and> (\<forall>i. occurs_at OSC_PROGRESS_PREFIX t i
          \<and> (\<forall>k j. i + length OSC_PROGRESS_PREFIX \<le> j \<longrightarrow> \<not> occurs_at (term_chars k) t j)
        \<longrightarrow> (\<forall>m\<in>set (findOscProgressSequences t). seq_start m \<noteq> i))"
proof -
  have fe: "first_end t (seq_start m + 6) (seq_end m) (seq_terminator m)"
    and pre: "occurs_at OSC_PROGRESS_PREFIX t (seq_start m)"
    if "m \<in> set (findOscProgressSequences t)" for m
    using that findFrom_sound[of t 0] by (auto simp: findOscProgressSequences_def)
  have 1: "occurs_at OSC_PROGRESS_PREFIX t (seq_start m)
     \<and> seq_start m + length OSC_PROGRESS_PREFIX + length (term_chars (seq_terminator m))
         \<le> seq_end m
     \<and> occurs_at (term_chars (seq_terminator m)) t
         (seq_end m - length (term_chars (seq_terminator m)))
     \<and> (\<forall>k j. seq_start m + length OSC_PROGRESS_PREFIX \<le> j \<and> occurs_at (term_chars k) t j
            \<longrightarrow> seq_end m \<le> j + length (term_chars k))"
    if "m \<in> set (findOscProgressSequences t)" for m
  proof -
    from fe[OF that] have "length (term_chars (seq_terminator m)) \<le> seq_end m"
      "seq_start m + 6 \<le> seq_end m - length (term_chars (seq_terminator m))"
      by (simp_all add: first_end_def)
    then have "seq_start m + 6 + length (term_chars (seq_terminator m)) \<le> seq_end m"
      by linarith
    with fe[OF that] pre[OF that] show ?thesis by (simp add: first_end_def)
  qed
  have 2: "seq_start m \<noteq> i"
    if "m \<in> set (findOscProgressSequences t)"
      and "\<forall>k j. i + length OSC_PROGRESS_PREFIX \<le> j \<longrightarrow> \<not> occurs_at (term_chars k) t j"
    for m i
    using first_end_occurs[OF fe[OF that(1)]] that(2) by auto
  from 1 2 show ?thesis by blast
qed

theorem findOscProgressSequences_earliest_terminator_witness:
  "findOscProgressSequences bel_then_st =
     [\<lparr>seq_start = 1, seq_end = 14,
       raw = OSC_PROGRESS_PREFIX @ js ''1;50;X'' @ OSC_PROGRESS_BEL, seq_terminator = SeqBel\<rparr>]
   \<and> occurs_at (term_chars SeqBel) bel_then_st 13
   \<and> occurs_at (term_chars SeqSt) bel_then_st 14
   \<and> (14::nat) \<le> 14 + length (term_chars SeqSt)
   \<and> occurs_at OSC_PROGRESS_PREFIX unterminated_text 1
   \<and> indexOf unterminated_text OSC_PROGRESS_ST 7 = None
   \<and> indexOf unterminated_text OSC_PROGRESS_BEL 7 = None
   \<and> indexOf unterminated_text OSC_PROGRESS_C1_ST 7 = None
   \<and> findOscProgressSequences unterminated_text = []"
proof -
  let ?m = "\<lparr>seq_start = 1, seq_end = 14,
       raw = OSC_PROGRESS_PREFIX @ js ''1;50;X'' @ OSC_PROGRESS_BEL, seq_terminator = SeqBel\<rparr>"
  have f: "findOscProgressSequences bel_then_st = [?m]" by code_simp
  then have m: "?m \<in> set (findOscProgressSequences bel_then_st)" by simp
  have st: "occurs_at (term_chars SeqSt) bel_then_st 14" by code_simp
  note th = findOscProgressSequences_earliest_terminator[of bel_then_st]
  from th m have a: "occurs_at (term_chars (seq_terminator ?m)) bel_then_st
         (seq_end ?m - length (term_chars (seq_terminator ?m)))" by blast
  have "length (term_chars SeqBel) = 1" by code_simp
  with a have bel: "occurs_at (term_chars SeqBel) bel_then_st 13" by simp
  from th m have "\<forall>k j. seq_start ?m + length OSC_PROGRESS_PREFIX \<le> j
       \<and> occurs_at (term_chars k) bel_then_st j \<longrightarrow> seq_end ?m \<le> j + length (term_chars k)"
    by blast
  with st have le: "(14::nat) \<le> 14 + length (term_chars SeqSt)" by simp
  have p: "occurs_at OSC_PROGRESS_PREFIX unterminated_text 1" by code_simp
  have n: "indexOf unterminated_text OSC_PROGRESS_ST 7 = None"
    "indexOf unterminated_text OSC_PROGRESS_BEL 7 = None"
    "indexOf unterminated_text OSC_PROGRESS_C1_ST 7 = None" by code_simp+
  have u: "findOscProgressSequences unterminated_text = []" by code_simp
  from f bel st le p n u show ?thesis by simp
qed



text \<open>
  C6, as amended. For every state, every percent (present or absent), every already
  sanitized label and each of the two terminators the emitter writes, take the frame
  \<open>send\<close> writes and any text \<open>pre @ frame @ post\<close> in which every prefix occurring in
  \<open>pre\<close> is followed, within \<open>pre\<close>, by a terminator. Then exactly one sequence reported
  by \<open>findOscProgressSequences\<close> overlaps the span of the frame: it starts where the frame
  starts, ends where it ends, its \<open>raw\<close> is the frame code unit for code unit, and its
  terminator is the one written.
\<close>

theorem findOscProgressSequences_roundtrip:
  assumes "sanitizeLabel lbl = lbl"
    and "\<forall>i. occurs_at OSC_PROGRESS_PREFIX pre i \<longrightarrow>
           (\<exists>k j. i + length OSC_PROGRESS_PREFIX \<le> j \<and> occurs_at (term_chars k) pre j)"
  shows "filter (\<lambda>m. seq_start m < length pre + length (osc_frame lbl (resolveTerminator tk) st percent)
                     \<and> length pre < seq_end m)
           (findOscProgressSequences (pre @ osc_frame lbl (resolveTerminator tk) st percent @ post))
       = [\<lparr>seq_start = length pre,
           seq_end = length pre + length (osc_frame lbl (resolveTerminator tk) st percent),
           raw = osc_frame lbl (resolveTerminator tk) st percent,
           seq_terminator = emitted_kind tk\<rparr>]"
proof -
  define body where "body = frame_payload lbl st percent"
  define k where "k = emitted_kind tk"
  define f where "f = osc_frame lbl (resolveTerminator tk) st percent"
  define t where "t = pre @ f @ post"
  define p where "p = length pre"
  define e where "e = p + length f"
  have f: "f = OSC_PROGRESS_PREFIX @ body @ term_chars k"
    by (simp add: f_def body_def k_def osc_frame_shape)
  have t: "t = pre @ OSC_PROGRESS_PREFIX @ body @ term_chars k @ post"
    by (simp add: t_def f)
  have lenf: "length f = 6 + length body + length (term_chars k)" by (simp add: f)
  have "frame_body body" unfolding body_def using assms(1) by (rule frame_payload_body)
  then have "first_end (pre @ OSC_PROGRESS_PREFIX @ body @ term_chars k @ post) (length pre + 6)
           (length pre + 6 + length body + length (term_chars k)) k"
    by (rule frame_first_end)
  then have fe: "first_end t (p + 6) e k"
    by (simp add: t p_def e_def lenf add.assoc)
  have "occurs_at OSC_PROGRESS_PREFIX (pre @ OSC_PROGRESS_PREFIX @ (body @ term_chars k @ post))
          (length pre)" by (rule occurs_at_here)
  then have occ: "occurs_at OSC_PROGRESS_PREFIX t p" by (simp add: t p_def)
  have clean: "\<forall>i. 0 \<le> i \<and> i < p \<and> occurs_at OSC_PROGRESS_PREFIX t i \<longrightarrow>
       (\<exists>k' j. i + 6 \<le> j \<and> occurs_at (term_chars k') t j \<and> j + length (term_chars k') \<le> p)"
  proof (intro allI impI)
    fix i assume i: "0 \<le> i \<and> i < p \<and> occurs_at OSC_PROGRESS_PREFIX t i"
    have "occurs_at OSC_PROGRESS_PREFIX pre i"
    proof (rule prefix_before_ESC)
      show "occurs_at OSC_PROGRESS_PREFIX (pre @ f @ post) i" using i by (simp add: t_def)
      show "i < length pre" using i by (simp add: p_def)
      show "f @ post \<noteq> []" "hd (f @ post) = 0x1b" by (simp_all add: f)
    qed
    with assms(2) obtain k' j where j: "i + 6 \<le> j" "occurs_at (term_chars k') pre j" by auto
    from occurs_at_length[OF j(2)] have l: "j + length (term_chars k') \<le> p" by (simp add: p_def)
    with j(2) have "occurs_at (term_chars k') t j"
      unfolding t_def p_def by (simp only: occurs_at_append_iff)
    with j(1) l show "\<exists>k' j. i + 6 \<le> j \<and> occurs_at (term_chars k') t j
        \<and> j + length (term_chars k') \<le> p" by blast
  qed
  let ?m = "\<lparr>seq_start = p, seq_end = e, raw = slice_str t p e, seq_terminator = k\<rparr>"
  from find_reaches[OF occ fe _ clean] obtain ms where
    ms: "findFrom t 0 = ms @ ?m # findFrom t e" "\<forall>m\<in>set ms. seq_end m \<le> p" by auto
  have rest: "\<forall>m\<in>set (findFrom t e). e \<le> seq_start m"
    using findFrom_sound[of t e] by blast
  have raw: "slice_str t p e = f" by (simp add: slice_str_def t_def p_def e_def)
  let ?Q = "\<lambda>m. seq_start m < p + length f \<and> p < seq_end m"
  have "filter ?Q ms = []" using ms(2) by (auto simp: filter_empty_conv)
  moreover have "filter ?Q (findFrom t e) = []"
    using rest by (auto simp: filter_empty_conv e_def)
  moreover have "?Q ?m" by (simp add: e_def lenf)
  ultimately have "filter ?Q (findFrom t 0) = [?m]" unfolding ms(1) by simp
  then show ?thesis
    by (simp add: findOscProgressSequences_def raw)
      (simp add: t_def p_def e_def f_def k_def)
qed

theorem findOscProgressSequences_roundtrip_witness:
  "sanitizeLabel (js ''X'') = js ''X''
   \<and> indexOf framed_pre OSC_PROGRESS_PREFIX 0 = Some 1
   \<and> indexOf framed_pre OSC_PROGRESS_PREFIX 2 = None
   \<and> occurs_at (term_chars SeqSt) framed_pre 11
   \<and> osc_frame (js ''X'') (resolveTerminator (Some TermBel)) 1 (Some 50)
       = OSC_PROGRESS_PREFIX @ js ''1;50;X'' @ OSC_PROGRESS_BEL
   \<and> filter (\<lambda>m. seq_start m < 14 + 13 \<and> 14 < seq_end m)
        (findOscProgressSequences
           (framed_pre @ (OSC_PROGRESS_PREFIX @ js ''1;50;X'' @ OSC_PROGRESS_BEL) @ js ''z''))
       = [\<lparr>seq_start = 14, seq_end = 27,
           raw = OSC_PROGRESS_PREFIX @ js ''1;50;X'' @ OSC_PROGRESS_BEL,
           seq_terminator = SeqBel\<rparr>]"
proof -
  have l: "sanitizeLabel (js ''X'') = js ''X''" by code_simp
  have i: "indexOf framed_pre OSC_PROGRESS_PREFIX 0 = Some 1"
    "indexOf framed_pre OSC_PROGRESS_PREFIX 2 = None" by code_simp+
  have o: "occurs_at (term_chars SeqSt) framed_pre 11" by code_simp
  have len: "length framed_pre = 14" by code_simp
  have f: "osc_frame (js ''X'') (resolveTerminator (Some TermBel)) 1 (Some 50)
       = OSC_PROGRESS_PREFIX @ js ''1;50;X'' @ OSC_PROGRESS_BEL"
    by (simp add: osc_frame_def resolveTerminator_def clampRound_def Math_round_def
      decimal.simps js_def)
  have lf: "length (OSC_PROGRESS_PREFIX @ js ''1;50;X'' @ OSC_PROGRESS_BEL) = 13"
    by code_simp
  have h: "\<forall>i. occurs_at OSC_PROGRESS_PREFIX framed_pre i \<longrightarrow>
           (\<exists>k j. i + length OSC_PROGRESS_PREFIX \<le> j \<and> occurs_at (term_chars k) framed_pre j)"
  proof (intro allI impI)
    fix i assume a: "occurs_at OSC_PROGRESS_PREFIX framed_pre i"
    from i(2) len have "\<forall>i\<ge>2. \<not> occurs_at OSC_PROGRESS_PREFIX framed_pre i"
      by (subst (asm) indexOf_None) simp_all
    with a have "i < 2" by (meson not_le_imp_less)
    then have "i + length OSC_PROGRESS_PREFIX \<le> 11" by simp
    with o show "\<exists>k j. i + length OSC_PROGRESS_PREFIX \<le> j \<and> occurs_at (term_chars k) framed_pre j"
      by blast
  qed
  from findOscProgressSequences_roundtrip[OF l h, of "Some TermBel" 1 "Some 50" "js ''z''"]
  have "filter (\<lambda>m. seq_start m < 14 + 13 \<and> 14 < seq_end m)
        (findOscProgressSequences
           (framed_pre @ (OSC_PROGRESS_PREFIX @ js ''1;50;X'' @ OSC_PROGRESS_BEL) @ js ''z''))
       = [\<lparr>seq_start = 14, seq_end = 27,
           raw = OSC_PROGRESS_PREFIX @ js ''1;50;X'' @ OSC_PROGRESS_BEL,
           seq_terminator = SeqBel\<rparr>]"
    unfolding f len lf by (simp add: emitted_kind_def)
  with l i o f show ?thesis by simp
qed

text \<open>
  C6 as stated fails: in a text where an unterminated prefix stands before the frame, the
  one sequence found starts at that earlier prefix, and its \<open>raw\<close> is longer than the frame.
\<close>

theorem findOscProgressSequences_roundtrip_counterexample:
  "sanitizeLabel (js ''X'') = js ''X''
   \<and> osc_frame (js ''X'') (resolveTerminator None) 1 (Some 50)
       = OSC_PROGRESS_PREFIX @ js ''1;50;X'' @ OSC_PROGRESS_ST
   \<and> findOscProgressSequences
        (OSC_PROGRESS_PREFIX @ (OSC_PROGRESS_PREFIX @ js ''1;50;X'' @ OSC_PROGRESS_ST))
       = [\<lparr>seq_start = 0, seq_end = 20,
           raw = OSC_PROGRESS_PREFIX @ OSC_PROGRESS_PREFIX @ js ''1;50;X'' @ OSC_PROGRESS_ST,
           seq_terminator = SeqSt\<rparr>]
   \<and> OSC_PROGRESS_PREFIX @ OSC_PROGRESS_PREFIX @ js ''1;50;X'' @ OSC_PROGRESS_ST
       \<noteq> OSC_PROGRESS_PREFIX @ js ''1;50;X'' @ OSC_PROGRESS_ST"
proof -
  have l: "sanitizeLabel (js ''X'') = js ''X''" by code_simp
  have f: "osc_frame (js ''X'') (resolveTerminator None) 1 (Some 50)
       = OSC_PROGRESS_PREFIX @ js ''1;50;X'' @ OSC_PROGRESS_ST"
    by (simp add: osc_frame_def resolveTerminator_def clampRound_def Math_round_def
      decimal.simps js_def)
  have s: "findOscProgressSequences
        (OSC_PROGRESS_PREFIX @ (OSC_PROGRESS_PREFIX @ js ''1;50;X'' @ OSC_PROGRESS_ST))
       = [\<lparr>seq_start = 0, seq_end = 20,
           raw = OSC_PROGRESS_PREFIX @ OSC_PROGRESS_PREFIX @ js ''1;50;X'' @ OSC_PROGRESS_ST,
           seq_terminator = SeqSt\<rparr>]" by code_simp
  have n: "OSC_PROGRESS_PREFIX @ OSC_PROGRESS_PREFIX @ js ''1;50;X'' @ OSC_PROGRESS_ST
       \<noteq> OSC_PROGRESS_PREFIX @ js ''1;50;X'' @ OSC_PROGRESS_ST" by simp
  from l f s n show ?thesis by simp
qed

text \<open>
  C7. For every label \<open>L\<close>, \<open>sanitizeLabel L\<close> contains no occurrence of the ST sequence
  (ESC backslash), no ESC code unit, no BEL, no C1 ST and no \<open>]\<close>; and \<open>sanitizeLabel\<close> is
  idempotent: sanitizing a sanitized label gives it back unchanged.
\<close>

theorem sanitizeLabel_clean_idempotent:
  "\<not> includes_str (sanitizeLabel L) OSC_PROGRESS_ST
   \<and> 0x1b \<notin> set (sanitizeLabel L)
   \<and> 0x07 \<notin> set (sanitizeLabel L)
   \<and> 0x9c \<notin> set (sanitizeLabel L)
   \<and> 0x5d \<notin> set (sanitizeLabel L)
   \<and> sanitizeLabel (sanitizeLabel L) = sanitizeLabel L"
proof -
  have "\<not> includes_str (sanitizeLabel L) OSC_PROGRESS_ST"
  proof
    assume "includes_str (sanitizeLabel L) OSC_PROGRESS_ST"
    then obtain i where "occurs_at OSC_PROGRESS_ST (sanitizeLabel L) i"
      by (auto simp: includes_iff)
    then have "hd OSC_PROGRESS_ST \<in> set (sanitizeLabel L)"
      by (rule occurs_at_hd_in_set) (simp add: OSC_PROGRESS_ST_def)
    then show False using sanitizeLabel_set(1)[of L] by (simp add: OSC_PROGRESS_ST_def)
  qed
  then show ?thesis
    using sanitizeLabel_set[of L] sanitizeLabel_idem[of L] by simp
qed

text \<open>
  C8. Take a determinate session on a supported terminal, started when the clock shows
  \<open>t0\<close>, and any sequence of timer callbacks and calls of stop after it; let \<open>tgt\<close> be
  \<open>Math.max\<close> of the configured \<open>targetMs\<close> (ten minutes when absent) and 1000. All
  arithmetic is that of doubles. The writes are, in order: the frame of the session's state
  with percent 0; for each timer callback before the first call of stop, one frame of the
  session's state whose percent is \<open>min(99, (now - t0) / tgt * 100)\<close> at the clock \<open>now\<close>
  of the callback; and, once stop has been called, one state-0/percent-0 frame. The timer
  is live exactly until the first call of stop: a callback after it writes nothing, and so
  does a second call of stop. The percent field of a timer frame is the ramp value rounded
  to the nearest integer (halves up: the integer \<open>n\<close> with \<open>n - 1/2 \<le> x < n + 1/2\<close>), at
  most 99, and 0 for a negative value; it reads \<open>NaN\<close> when the ramp value is NaN, as with a
  \<open>targetMs\<close> of NaN. With a clock that has not gone backwards and a finite target the
  ramp value is a number from 0 to 99. No write carries percent \<open>100\<close>.
\<close>

theorem determinate_ramp:
  assumes "supportsOscProgress h (env options) (isTty options) options"
    and "indeterminate options \<noteq> Some True"
    and "l = sanitizeLabel (case label options of None \<Rightarrow> default_label | Some l \<Rightarrow> l)"
    and "e = resolveTerminator (terminator options)"
    and "st = (case state options of None \<Rightarrow> 1 | Some st \<Rightarrow> st)"
    and "tgt = Math_max_n (case targetMs options of None \<Rightarrow> Num (10 * 60000) | Some t \<Rightarrow> t)
                 (Num 1000)"
    and "s = run evs (startOscProgress h t0 options)"
    and "p = ramp_percent tgt t0 now"
    and "w = send_text l e st (Some p)"
  shows "writes s =
           (OSC_PROGRESS_PREFIX @ decimal st @ js '';0;'' @ l @ e)
           # map (\<lambda>now. send_text l e st (Some (ramp_percent tgt t0 now))) (live_ticks evs)
           @ (if Stop \<in> set evs then [OSC_PROGRESS_PREFIX @ js ''0;0;'' @ l @ e] else [])
       \<and> timer_live s = (Stop \<notin> set evs)
       \<and> writes (tick now s) = (if Stop \<in> set evs then writes s else writes s @ [w])
       \<and> writes (stop s) =
           (if Stop \<in> set evs then writes s
            else writes s @ [OSC_PROGRESS_PREFIX @ js ''0;0;'' @ l @ e])
       \<and> \<not> timer_live (stop s)
       \<and> state_field w = decimal st
       \<and> percent_field w =
           (case p of NaN \<Rightarrow> js ''NaN'' | PosInf \<Rightarrow> js ''100'' | NegInf \<Rightarrow> js ''0''
            | Num x \<Rightarrow> decimal (nat (Math_round x)))
       \<and> (case p of NaN \<Rightarrow> True | PosInf \<Rightarrow> False | NegInf \<Rightarrow> True
           | Num x \<Rightarrow> x \<le> 99 \<and> Math_round x \<le> 99
               \<and> real_of_int (Math_round x) - 1 / 2 \<le> x
               \<and> x < real_of_int (Math_round x) + 1 / 2)
       \<and> (t0 \<le> now \<and> tgt \<noteq> NaN \<and> tgt \<noteq> PosInf \<longrightarrow> (\<exists>x. p = Num x \<and> 0 \<le> x \<and> x \<le> 99))
       \<and> (\<forall>w\<in>set (writes s). percent_field w \<noteq> js ''100'')"
proof -
  let ?s0 = "startOscProgress h t0 options"
  from determinate_start[OF assms(1,2), of t0]
  have d0: "determinate_session l e st tgt t0 ?s0"
    and w0: "writes ?s0 = [send_text l e st (Some (Num 0))]"
    and l0: "timer_live ?s0"
    unfolding assms(3-6) by blast+
  from run_live[OF d0 l0, of evs]
  have inv: "determinate_session l e st tgt t0 s"
    and ws: "writes s = send_text l e st (Some (Num 0))
         # map (\<lambda>now. send_text l e st (Some (ramp_percent tgt t0 now))) (live_ticks evs)
         @ (if Stop \<in> set evs then [send_text l e 0 (Some (Num 0))] else [])"
    and live: "timer_live s = (Stop \<notin> set evs)"
    unfolding assms(7) w0 by simp_all
  from inv live have f: "stopFn s = StopDeterminate" "cleanLabel s = l" "end_chars s = e"
    "run_state s = st" "target s = tgt" "startedAt s = t0" "stopped s = (Stop \<in> set evs)"
    by (auto simp: determinate_session_def)
  have 1: "writes s =
           (OSC_PROGRESS_PREFIX @ decimal st @ js '';0;'' @ l @ e)
           # map (\<lambda>now. send_text l e st (Some (ramp_percent tgt t0 now))) (live_ticks evs)
           @ (if Stop \<in> set evs then [OSC_PROGRESS_PREFIX @ js ''0;0;'' @ l @ e] else [])"
    unfolding ws send_text_stop by (simp add: send_text_zero)
  have 2: "writes (tick now s) = (if Stop \<in> set evs then writes s else writes s @ [w])"
    using live by (simp add: tick_def Let_def send_def f assms(8,9) ramp_percent_def)
  have 3: "writes (stop s) =
           (if Stop \<in> set evs then writes s
            else writes s @ [OSC_PROGRESS_PREFIX @ js ''0;0;'' @ l @ e])"
    by (simp add: stop_def send_def f send_text_stop)
  have 4: "\<not> timer_live (stop s)" using live by (simp add: stop_def send_def f)
  have 5: "state_field w = decimal st" unfolding assms(9) by (rule fields_send_text)
  from ramp_percent_cases[of tgt t0 now]
  have 67: "percent_field w =
           (case p of NaN \<Rightarrow> js ''NaN'' | PosInf \<Rightarrow> js ''100'' | NegInf \<Rightarrow> js ''0''
            | Num x \<Rightarrow> decimal (nat (Math_round x)))
       \<and> (case p of NaN \<Rightarrow> True | PosInf \<Rightarrow> False | NegInf \<Rightarrow> True
           | Num x \<Rightarrow> x \<le> 99 \<and> Math_round x \<le> 99
               \<and> real_of_int (Math_round x) - 1 / 2 \<le> x
               \<and> x < real_of_int (Math_round x) + 1 / 2)"
  proof (elim disjE exE conjE)
    assume "ramp_percent tgt t0 now = NaN"
    then show ?thesis unfolding assms(9) fields_send_text by (simp add: assms(8))
  next
    assume "ramp_percent tgt t0 now = NegInf"
    then show ?thesis unfolding assms(9) fields_send_text by (simp add: assms(8))
  next
    fix x assume x: "ramp_percent tgt t0 now = Num x" "x \<le> 99"
    from x(2) have "Math_round x \<le> Math_round 99" by (rule Math_round_mono)
    moreover have "Math_round 99 = 99" using Math_round_int[of 99] by simp
    ultimately have r: "Math_round x \<le> 99" by simp
    then have "nat (clampRound x) = nat (Math_round x)" by (simp add: clampRound_def)
    with x r Math_round_nearest[of x] show ?thesis
      unfolding assms(9) fields_send_text by (simp add: assms(8))
  qed
  have 8: "\<exists>x. p = Num x \<and> 0 \<le> x \<and> x \<le> 99" if "t0 \<le> now" "tgt \<noteq> NaN" "tgt \<noteq> PosInf"
  proof -
    from target_floor[OF that(2,3)[unfolded assms(6)]] obtain T where
      "tgt = Num T" "1000 \<le> T" unfolding assms(6) by blast
    with ramp_percent_forward[OF that(1), of T] show ?thesis by (simp add: assms(8))
  qed
  have 9: "\<forall>w\<in>set (writes s). percent_field w \<noteq> js ''100''"
    unfolding ws using ramp_frame_not_100[of l e st tgt t0] zero_frame_not_100[of l e]
    by auto
  from 1 live 2 3 4 5 67 8 9 show ?thesis by blast
qed

theorem determinate_ramp_witness:
  "supportsOscProgress node (env ghostty_options) (isTty ghostty_options) ghostty_options
   \<and> indeterminate ghostty_options \<noteq> Some True
   \<and> writes (run [Tick 3600] (startOscProgress node 0 ghostty_options)) =
       [OSC_PROGRESS_PREFIX @ js ''1;0;Working'' @ [0x2026] @ OSC_PROGRESS_ST,
        OSC_PROGRESS_PREFIX @ js ''1;1;Working'' @ [0x2026] @ OSC_PROGRESS_ST]
   \<and> timer_live (run [Tick 3600] (startOscProgress node 0 ghostty_options))
   \<and> ramp_percent (Num 600000) 0 171000 = Num (8022036836253695 / 281474976710656)
   \<and> Math_round (8022036836253695 / 281474976710656) = 28
   \<and> writes (tick 171000 (run [Tick 3600] (startOscProgress node 0 ghostty_options))) =
       [OSC_PROGRESS_PREFIX @ js ''1;0;Working'' @ [0x2026] @ OSC_PROGRESS_ST,
        OSC_PROGRESS_PREFIX @ js ''1;1;Working'' @ [0x2026] @ OSC_PROGRESS_ST,
        OSC_PROGRESS_PREFIX @ js ''1;28;Working'' @ [0x2026] @ OSC_PROGRESS_ST]
   \<and> percent_field (OSC_PROGRESS_PREFIX @ js ''1;28;Working'' @ [0x2026] @ OSC_PROGRESS_ST)
       = js ''28''
   \<and> writes (stop (run [Tick 3600] (startOscProgress node 0 ghostty_options))) =
       [OSC_PROGRESS_PREFIX @ js ''1;0;Working'' @ [0x2026] @ OSC_PROGRESS_ST,
        OSC_PROGRESS_PREFIX @ js ''1;1;Working'' @ [0x2026] @ OSC_PROGRESS_ST,
        OSC_PROGRESS_PREFIX @ js ''0;0;Working'' @ [0x2026] @ OSC_PROGRESS_ST]
   \<and> supportsOscProgress node (env nan_target_options) (isTty nan_target_options)
       nan_target_options
   \<and> indeterminate nan_target_options \<noteq> Some True
   \<and> writes (run [Tick 900, Stop, Tick 1800, Stop] (startOscProgress node 0 nan_target_options)) =
       [OSC_PROGRESS_PREFIX @ js ''1;0;Working'' @ [0x2026] @ OSC_PROGRESS_ST,
        OSC_PROGRESS_PREFIX @ js ''1;NaN;Working'' @ [0x2026] @ OSC_PROGRESS_ST,
        OSC_PROGRESS_PREFIX @ js ''0;0;Working'' @ [0x2026] @ OSC_PROGRESS_ST]
   \<and> \<not> timer_live
       (run [Tick 900, Stop, Tick 1800, Stop] (startOscProgress node 0 nan_target_options))
   \<and> ramp_percent NaN 0 2700 = NaN
   \<and> writes (tick 2700
       (run [Tick 900, Stop, Tick 1800, Stop] (startOscProgress node 0 nan_target_options))) =
       [OSC_PROGRESS_PREFIX @ js ''1;0;Working'' @ [0x2026] @ OSC_PROGRESS_ST,
        OSC_PROGRESS_PREFIX @ js ''1;NaN;Working'' @ [0x2026] @ OSC_PROGRESS_ST,
        OSC_PROGRESS_PREFIX @ js ''0;0;Working'' @ [0x2026] @ OSC_PROGRESS_ST]
   \<and> writes (stop
       (run [Tick 900, Stop, Tick 1800, Stop] (startOscProgress node 0 nan_target_options))) =
       [OSC_PROGRESS_PREFIX @ js ''1;0;Working'' @ [0x2026] @ OSC_PROGRESS_ST,
        OSC_PROGRESS_PREFIX @ js ''1;NaN;Working'' @ [0x2026] @ OSC_PROGRESS_ST,
        OSC_PROGRESS_PREFIX @ js ''0;0;Working'' @ [0x2026] @ OSC_PROGRESS_ST]
   \<and> supportsOscProgress node (env fetching_options) (isTty fetching_options) fetching_options
   \<and> indeterminate fetching_options \<noteq> Some True
   \<and> ramp_percent (Num 2000) 0 3000 = Num 99
   \<and> writes (tick 3000 (run [] (startOscProgress node 0 fetching_options))) =
       [OSC_PROGRESS_PREFIX @ js ''1;0;Fetching'' @ OSC_PROGRESS_ST,
        OSC_PROGRESS_PREFIX @ js ''1;99;Fetching'' @ OSC_PROGRESS_ST]"
proof -
  let ?u = "run [] (startOscProgress node 0 fetching_options)"
  let ?s = "run [Tick 3600] (startOscProgress node 0 ghostty_options)"
  let ?r = "run [Tick 900, Stop, Tick 1800, Stop] (startOscProgress node 0 nan_target_options)"
  have a1: "supportsOscProgress node (env ghostty_options) (isTty ghostty_options)
      ghostty_options" by code_simp
  have a2: "indeterminate ghostty_options \<noteq> Some True" by code_simp
  have b1: "supportsOscProgress node (env nan_target_options) (isTty nan_target_options)
      nan_target_options" by code_simp
  have b2: "indeterminate nan_target_options \<noteq> Some True" by code_simp
  have c1: "supportsOscProgress node (env fetching_options) (isTty fetching_options)
      fetching_options" by code_simp
  have c2: "indeterminate fetching_options \<noteq> Some True" by code_simp
  have o3: "sanitizeLabel (case label fetching_options of None \<Rightarrow> default_label | Some l \<Rightarrow> l)
        = js ''Fetching''"
      "resolveTerminator (terminator fetching_options) = OSC_PROGRESS_ST"
      "(case state fetching_options of None \<Rightarrow> 1 | Some st \<Rightarrow> st) = 1"
      "Math_max_n (case targetMs fetching_options of None \<Rightarrow> Num (10 * 60000) | Some t \<Rightarrow> t)
         (Num 1000) = Num 2000"
    by code_simp+
  have p3: "ramp_percent (Num 2000) 0 3000 = Num 99" by code_simp
  have f3: "send_text (js ''Fetching'') OSC_PROGRESS_ST 1 (Some (Num 99))
      = OSC_PROGRESS_PREFIX @ js ''1;99;Fetching'' @ OSC_PROGRESS_ST"
    by code_simp
  have wu: "writes ?u = [OSC_PROGRESS_PREFIX @ js ''1;0;Fetching'' @ OSC_PROGRESS_ST]"
    by code_simp
  have o: "sanitizeLabel (case label ghostty_options of None \<Rightarrow> default_label | Some l \<Rightarrow> l)
        = js ''Working'' @ [0x2026]"
      "resolveTerminator (terminator ghostty_options) = OSC_PROGRESS_ST"
      "(case state ghostty_options of None \<Rightarrow> 1 | Some st \<Rightarrow> st) = 1"
      "Math_max_n (case targetMs ghostty_options of None \<Rightarrow> Num (10 * 60000) | Some t \<Rightarrow> t)
         (Num 1000) = Num 600000"
      "sanitizeLabel (case label nan_target_options of None \<Rightarrow> default_label | Some l \<Rightarrow> l)
        = js ''Working'' @ [0x2026]"
      "resolveTerminator (terminator nan_target_options) = OSC_PROGRESS_ST"
      "(case state nan_target_options of None \<Rightarrow> 1 | Some st \<Rightarrow> st) = 1"
      "Math_max_n (case targetMs nan_target_options of None \<Rightarrow> Num (10 * 60000) | Some t \<Rightarrow> t)
         (Num 1000) = NaN"
    by code_simp+
  have p: "ramp_percent (Num 600000) 0 171000 = Num (8022036836253695 / 281474976710656)"
    by code_simp
  have q: "ramp_percent NaN 0 2700 = NaN" by code_simp
  have m: "Math_round (8022036836253695 / 281474976710656) = 28" by code_simp
  have f: "send_text (js ''Working'' @ [0x2026]) OSC_PROGRESS_ST 1
        (Some (Num (8022036836253695 / 281474976710656)))
      = OSC_PROGRESS_PREFIX @ js ''1;28;Working'' @ [0x2026] @ OSC_PROGRESS_ST"
    by code_simp
  have d: "decimal 28 = js ''28''" by code_simp
  have ws: "writes ?s =
       [OSC_PROGRESS_PREFIX @ js ''1;0;Working'' @ [0x2026] @ OSC_PROGRESS_ST,
        OSC_PROGRESS_PREFIX @ js ''1;1;Working'' @ [0x2026] @ OSC_PROGRESS_ST]" by code_simp
  have wr: "writes ?r =
       [OSC_PROGRESS_PREFIX @ js ''1;0;Working'' @ [0x2026] @ OSC_PROGRESS_ST,
        OSC_PROGRESS_PREFIX @ js ''1;NaN;Working'' @ [0x2026] @ OSC_PROGRESS_ST,
        OSC_PROGRESS_PREFIX @ js ''0;0;Working'' @ [0x2026] @ OSC_PROGRESS_ST]" by code_simp
  note th1 = determinate_ramp[where h = node and options = ghostty_options and ?t0.0 = 0
      and evs = "[Tick 3600]" and now = 171000, OF a1 a2 refl refl refl refl refl refl refl,
      unfolded o p f]
  note th2 = determinate_ramp[where h = node and options = nan_target_options and ?t0.0 = 0
      and evs = "[Tick 900, Stop, Tick 1800, Stop]" and now = 2700,
      OF b1 b2 refl refl refl refl refl refl refl, unfolded o q]
  note th3 = determinate_ramp[where h = node and options = fetching_options and ?t0.0 = 0
      and evs = "[]" and now = 3000, OF c1 c2 refl refl refl refl refl refl refl,
      unfolded o3 p3 f3]
  from th3 have "writes (tick 3000 ?u) = writes ?u
      @ [OSC_PROGRESS_PREFIX @ js ''1;99;Fetching'' @ OSC_PROGRESS_ST]" by simp
  then have 8: "writes (tick 3000 ?u) =
       [OSC_PROGRESS_PREFIX @ js ''1;0;Fetching'' @ OSC_PROGRESS_ST,
        OSC_PROGRESS_PREFIX @ js ''1;99;Fetching'' @ OSC_PROGRESS_ST]"
    unfolding wu by simp
  from th1 have 1: "timer_live ?s" by simp
  from th1 have "writes (tick 171000 ?s) = writes ?s
      @ [OSC_PROGRESS_PREFIX @ js ''1;28;Working'' @ [0x2026] @ OSC_PROGRESS_ST]" by simp
  then have 2: "writes (tick 171000 ?s) =
       [OSC_PROGRESS_PREFIX @ js ''1;0;Working'' @ [0x2026] @ OSC_PROGRESS_ST,
        OSC_PROGRESS_PREFIX @ js ''1;1;Working'' @ [0x2026] @ OSC_PROGRESS_ST,
        OSC_PROGRESS_PREFIX @ js ''1;28;Working'' @ [0x2026] @ OSC_PROGRESS_ST]"
    unfolding ws by simp
  from th1 have 3: "percent_field
      (OSC_PROGRESS_PREFIX @ js ''1;28;Working'' @ [0x2026] @ OSC_PROGRESS_ST) = js ''28''"
    by (simp add: m d)
  from th1 have "writes (stop ?s) = writes ?s
      @ [OSC_PROGRESS_PREFIX @ js ''0;0;'' @ (js ''Working'' @ [0x2026]) @ OSC_PROGRESS_ST]"
    by simp
  then have 4: "writes (stop ?s) =
       [OSC_PROGRESS_PREFIX @ js ''1;0;Working'' @ [0x2026] @ OSC_PROGRESS_ST,
        OSC_PROGRESS_PREFIX @ js ''1;1;Working'' @ [0x2026] @ OSC_PROGRESS_ST,
        OSC_PROGRESS_PREFIX @ js ''0;0;Working'' @ [0x2026] @ OSC_PROGRESS_ST]"
    unfolding ws by (simp add: js_def)
  from th2 have 5: "\<not> timer_live ?r" by simp
  from th2 have 6: "writes (tick 2700 ?r) = writes ?r" by simp
  from th2 have 7: "writes (stop ?r) = writes ?r" by simp
  from a1 a2 ws 1 p m 2 3 4 b1 b2 wr 5 q 6[unfolded wr] 7[unfolded wr] c1 c2 p3 8
  show ?thesis
    by (intro conjI)
qed

text \<open>
  C9. With \<open>isTty\<close> false the answer is false for every environment and every options
  record, whatever \<open>force\<close> says. With \<open>isTty\<close> true the overrides are consulted in the
  order \<open>disabled\<close>, \<open>force\<close>, the variable named by \<open>disableEnvVar\<close> being \<open>"1"\<close>, the
  variable named by \<open>forceEnvVar\<close> being \<open>"1"\<close>, and last the built-in allow-list: each
  one decides the answer as soon as it applies and none before it does. With both
  \<open>disabled\<close> and \<open>force\<close> set the answer is false.
\<close>

theorem supportsOscProgress_precedence:
  "supportsOscProgress h env_arg (Some False) options = False
   \<and> (truthy (disabled options)
        \<longrightarrow> supportsOscProgress h (Some env0) (Some True) options = False)
   \<and> (\<not> truthy (disabled options) \<and> truthy (force options)
        \<longrightarrow> supportsOscProgress h (Some env0) (Some True) options = True)
   \<and> (\<not> truthy (disabled options) \<and> \<not> truthy (force options)
        \<and> env_flag env0 (disableEnvVar options)
        \<longrightarrow> supportsOscProgress h (Some env0) (Some True) options = False)
   \<and> (\<not> truthy (disabled options) \<and> \<not> truthy (force options)
        \<and> \<not> env_flag env0 (disableEnvVar options) \<and> env_flag env0 (forceEnvVar options)
        \<longrightarrow> supportsOscProgress h (Some env0) (Some True) options = True)
   \<and> (\<not> truthy (disabled options) \<and> \<not> truthy (force options)
        \<and> \<not> env_flag env0 (disableEnvVar options) \<and> \<not> env_flag env0 (forceEnvVar options)
        \<longrightarrow> supportsOscProgress h (Some env0) (Some True) options =
            (includes_str
               (toLowerCase h (case env0 (js ''TERM_PROGRAM'') of None \<Rightarrow> [] | Some v \<Rightarrow> v))
               (js ''ghostty'')
             \<or> includes_str
               (toLowerCase h (case env0 (js ''TERM_PROGRAM'') of None \<Rightarrow> [] | Some v \<Rightarrow> v))
               (js ''wezterm'')
             \<or> truthy_str (env0 (js ''WT_SESSION''))))
   \<and> supportsOscProgress h (Some env0) (Some True)
        (options\<lparr>disabled := Some True, force := Some True\<rparr>) = False"
  by (simp add: supports_not_tty supports_tty truthy_def)

theorem supportsOscProgress_precedence_witness:
  "supportsOscProgress node (Some (env_of [(js ''TERM_PROGRAM'', js ''ghostty'')])) (Some False)
       (no_options\<lparr>force := Some True\<rparr>) = False
   \<and> truthy (disabled (no_options\<lparr>disabled := Some True, force := Some True\<rparr>))
   \<and> supportsOscProgress node (Some (env_of [(js ''TERM_PROGRAM'', js ''ghostty'')])) (Some True)
       (no_options\<lparr>disabled := Some True, force := Some True\<rparr>) = False
   \<and> truthy (force (no_options\<lparr>force := Some True, disableEnvVar := Some (js ''NO'')\<rparr>))
   \<and> env_flag (env_of [(js ''NO'', js ''1'')]) (Some (js ''NO''))
   \<and> supportsOscProgress node (Some (env_of [(js ''NO'', js ''1'')])) (Some True)
       (no_options\<lparr>force := Some True, disableEnvVar := Some (js ''NO'')\<rparr>) = True
   \<and> env_flag (env_of [(js ''NO'', js ''1''), (js ''YES'', js ''1''),
                        (js ''TERM_PROGRAM'', js ''ghostty'')]) (Some (js ''YES''))
   \<and> supportsOscProgress node
        (Some (env_of [(js ''NO'', js ''1''), (js ''YES'', js ''1''),
                       (js ''TERM_PROGRAM'', js ''ghostty'')])) (Some True)
        (no_options\<lparr>disableEnvVar := Some (js ''NO''), forceEnvVar := Some (js ''YES'')\<rparr>) = False
   \<and> supportsOscProgress node (Some (env_of [(js ''YES'', js ''1'')])) (Some True)
        (no_options\<lparr>forceEnvVar := Some (js ''YES'')\<rparr>) = True
   \<and> supportsOscProgress node (Some (env_of [(js ''TERM_PROGRAM'', js ''WezTerm'')])) (Some True)
        no_options = True
   \<and> supportsOscProgress node (Some (env_of [(js ''TERM_PROGRAM'', js ''unknown'')])) (Some True)
        no_options = False"
proof -
  let ?g = "env_of [(js ''TERM_PROGRAM'', js ''ghostty'')]"
  let ?n = "env_of [(js ''NO'', js ''1'')]"
  let ?ny = "env_of [(js ''NO'', js ''1''), (js ''YES'', js ''1''),
                        (js ''TERM_PROGRAM'', js ''ghostty'')]"
  let ?y = "env_of [(js ''YES'', js ''1'')]"
  let ?w = "env_of [(js ''TERM_PROGRAM'', js ''WezTerm'')]"
  let ?u = "env_of [(js ''TERM_PROGRAM'', js ''unknown'')]"
  have t: "truthy (disabled (no_options\<lparr>disabled := Some True, force := Some True\<rparr>))"
    "truthy (force (no_options\<lparr>force := Some True, disableEnvVar := Some (js ''NO'')\<rparr>))"
    "\<not> truthy (disabled (no_options\<lparr>force := Some True, disableEnvVar := Some (js ''NO'')\<rparr>))"
    "\<not> truthy (disabled (no_options\<lparr>disableEnvVar := Some (js ''NO''), forceEnvVar := Some (js ''YES'')\<rparr>))"
    "\<not> truthy (force (no_options\<lparr>disableEnvVar := Some (js ''NO''), forceEnvVar := Some (js ''YES'')\<rparr>))"
    "\<not> truthy (disabled (no_options\<lparr>forceEnvVar := Some (js ''YES'')\<rparr>))"
    "\<not> truthy (force (no_options\<lparr>forceEnvVar := Some (js ''YES'')\<rparr>))"
    "\<not> truthy (disabled no_options)" "\<not> truthy (force no_options)"
    by (simp_all add: truthy_def no_options_def)
  have f: "env_flag ?n (Some (js ''NO''))" "env_flag ?ny (Some (js ''YES''))"
    "env_flag ?ny (Some (js ''NO''))" "env_flag ?y (Some (js ''YES''))"
    "\<not> env_flag ?y None" "\<not> env_flag ?w None" "\<not> env_flag ?u None"
    by (simp_all add: env_flag_def env_of_def js_def)
  have a: "includes_str (toLowerCase node (case ?w (js ''TERM_PROGRAM'') of None \<Rightarrow> [] | Some v \<Rightarrow> v))
             (js ''wezterm'')"
    "\<not> includes_str (toLowerCase node (case ?u (js ''TERM_PROGRAM'') of None \<Rightarrow> [] | Some v \<Rightarrow> v))
             (js ''ghostty'')"
    "\<not> includes_str (toLowerCase node (case ?u (js ''TERM_PROGRAM'') of None \<Rightarrow> [] | Some v \<Rightarrow> v))
             (js ''wezterm'')"
    "\<not> truthy_str (?u (js ''WT_SESSION''))"
    by code_simp+
  have 1: "supportsOscProgress node (Some ?g) (Some False) (no_options\<lparr>force := Some True\<rparr>) = False"
    using supportsOscProgress_precedence[of node "Some ?g" "no_options\<lparr>force := Some True\<rparr>"]
    by blast
  have 2: "supportsOscProgress node (Some ?g) (Some True)
       (no_options\<lparr>disabled := Some True, force := Some True\<rparr>) = False"
    using supportsOscProgress_precedence[of node _
        "no_options\<lparr>disabled := Some True, force := Some True\<rparr>" ?g] t(1)
    by blast
  have 3: "supportsOscProgress node (Some ?n) (Some True)
       (no_options\<lparr>force := Some True, disableEnvVar := Some (js ''NO'')\<rparr>) = True"
    using supportsOscProgress_precedence[of node _
        "no_options\<lparr>force := Some True, disableEnvVar := Some (js ''NO'')\<rparr>" ?n] t(2,3)
    by blast
  have 4: "supportsOscProgress node (Some ?ny) (Some True)
        (no_options\<lparr>disableEnvVar := Some (js ''NO''), forceEnvVar := Some (js ''YES'')\<rparr>) = False"
    using supportsOscProgress_precedence[of node _
        "no_options\<lparr>disableEnvVar := Some (js ''NO''), forceEnvVar := Some (js ''YES'')\<rparr>" ?ny]
      t(4,5) f(3) by (simp add: no_options_def)
  have 5: "supportsOscProgress node (Some ?y) (Some True)
        (no_options\<lparr>forceEnvVar := Some (js ''YES'')\<rparr>) = True"
    using supportsOscProgress_precedence[of node _
        "no_options\<lparr>forceEnvVar := Some (js ''YES'')\<rparr>" ?y]
      t(6,7) f(4,5) by (simp add: no_options_def)
  have 6: "supportsOscProgress node (Some ?w) (Some True) no_options = True"
    using supportsOscProgress_precedence[of node _ no_options ?w] t(8,9) f(6) a(1)
    by (simp add: no_options_def)
  have 7: "supportsOscProgress node (Some ?u) (Some True) no_options = False"
    using supportsOscProgress_precedence[of node _ no_options ?u] t(8,9) f(7) a(2,3,4)
    by (simp add: no_options_def)
  from 1 2 3 4 5 6 7 t(1,2) f(1,2) show ?thesis by simp
qed

text \<open>
  C10. The output of \<open>stripOscProgress\<close> contains no occurrence of the prefix. After the
  span from the first prefix to its first terminator is cut, the loop runs again on the
  text before the span joined to the text after it, so a prefix formed by the join is
  removed like any other; and a first prefix with no terminator after it is cut to the end
  of the text, which ends the loop.
\<close>

theorem stripOscProgress_leaves_no_prefix:
  "\<not> includes_str (stripOscProgress t) OSC_PROGRESS_PREFIX
   \<and> (indexOf t OSC_PROGRESS_PREFIX 0 = Some start
        \<and> first_end t (start + length OSC_PROGRESS_PREFIX) e k
      \<longrightarrow> stripOscProgress t = stripOscProgress (slice_str t 0 start @ slice_from t e))
   \<and> (indexOf t OSC_PROGRESS_PREFIX 0 = Some start
        \<and> (\<forall>k j. start + length OSC_PROGRESS_PREFIX \<le> j \<longrightarrow> \<not> occurs_at (term_chars k) t j)
      \<longrightarrow> stripOscProgress t = slice_str t 0 start)"
proof (intro conjI impI)
  show "\<not> includes_str (stripOscProgress t) OSC_PROGRESS_PREFIX"
    by (simp add: includes_str_def strip_no_prefix)
next
  assume "indexOf t OSC_PROGRESS_PREFIX 0 = Some start
        \<and> first_end t (start + length OSC_PROGRESS_PREFIX) e k"
  then have "stripOscProgress t = stripOscProgress (take start t @ drop e t)"
    by (intro strip_cut_step[of t start e k]) simp_all
  then show "stripOscProgress t = stripOscProgress (slice_str t 0 start @ slice_from t e)"
    by (simp add: slice_str_def slice_from_def)
next
  assume a: "indexOf t OSC_PROGRESS_PREFIX 0 = Some start
        \<and> (\<forall>k j. start + length OSC_PROGRESS_PREFIX \<le> j \<longrightarrow> \<not> occurs_at (term_chars k) t j)"
  then have "stripOscProgress t = stripOscProgress (take start t)"
    by (intro strip_unterminated_step) simp_all
  also have "\<dots> = take start t"
    using a by (intro strip_none take_before_first) simp
  finally show "stripOscProgress t = slice_str t 0 start" by (simp add: slice_str_def)
qed

theorem stripOscProgress_leaves_no_prefix_witness:
  "indexOf spliced_text OSC_PROGRESS_PREFIX 0 = Some 4
   \<and> first_end spliced_text (4 + length OSC_PROGRESS_PREFIX) 11 SeqBel
   \<and> slice_str spliced_text 0 4 @ slice_from spliced_text 11 = OSC_PROGRESS_PREFIX @ js ''x''
   \<and> indexOf (OSC_PROGRESS_PREFIX @ js ''x'') OSC_PROGRESS_PREFIX 0 = Some 0
   \<and> indexOf (OSC_PROGRESS_PREFIX @ js ''x'') OSC_PROGRESS_ST 6 = None
   \<and> indexOf (OSC_PROGRESS_PREFIX @ js ''x'') OSC_PROGRESS_BEL 6 = None
   \<and> indexOf (OSC_PROGRESS_PREFIX @ js ''x'') OSC_PROGRESS_C1_ST 6 = None
   \<and> stripOscProgress spliced_text = []
   \<and> includes_str (stripOscProgress spliced_text) OSC_PROGRESS_PREFIX = False"
proof -
  let ?j = "OSC_PROGRESS_PREFIX @ js ''x''"
  have i: "indexOf spliced_text OSC_PROGRESS_PREFIX 0 = Some 4" by code_simp
  have "first_end ([0x1b, 0x5d, 0x39, 0x3b] @ OSC_PROGRESS_PREFIX @ [] @ term_chars SeqBel @ js ''4;x'')
      (length [0x1b, 0x5d, 0x39, 0x3b :: jschar] + 6)
      (length [0x1b, 0x5d, 0x39, 0x3b :: jschar] + 6 + length ([] :: jsstring)
        + length (term_chars SeqBel)) SeqBel"
    by (rule frame_first_end) (simp add: frame_body_def)
  then have fe: "first_end spliced_text (4 + length OSC_PROGRESS_PREFIX) 11 SeqBel"
    by (simp add: spliced_text_def term_chars_cases OSC_PROGRESS_BEL_def)
  have j: "slice_str spliced_text 0 4 @ slice_from spliced_text 11 = ?j" by code_simp
  have i2: "indexOf ?j OSC_PROGRESS_PREFIX 0 = Some 0" by code_simp
  have n: "indexOf ?j OSC_PROGRESS_ST 6 = None" "indexOf ?j OSC_PROGRESS_BEL 6 = None"
    "indexOf ?j OSC_PROGRESS_C1_ST 6 = None" by code_simp+
  have "indexOf ?j (term_chars k) 6 = None" for k
    using n by (cases k) (simp_all add: term_chars_cases)
  moreover have "6 \<le> length ?j" by (simp add: js_def)
  ultimately have h: "\<forall>k j. 0 + length OSC_PROGRESS_PREFIX \<le> j \<longrightarrow> \<not> occurs_at (term_chars k) ?j j"
    using indexOf_None[of 6 ?j] by simp
  from stripOscProgress_leaves_no_prefix[of spliced_text 4 11 SeqBel] i fe j
  have "stripOscProgress spliced_text = stripOscProgress ?j" by simp
  also from stripOscProgress_leaves_no_prefix[of ?j 0] i2 h
  have "stripOscProgress ?j = slice_str ?j 0 0" by blast
  finally have s: "stripOscProgress spliced_text = []" by (simp add: slice_str_def)
  from stripOscProgress_leaves_no_prefix[of spliced_text]
  have inc: "includes_str (stripOscProgress spliced_text) OSC_PROGRESS_PREFIX = False" by simp
  from i fe j i2 n s inc show ?thesis by simp
qed

end
